theory Spec2Isabelle
  imports Complex_Main
begin

section \<open>Python floats\<close>

text \<open>
  The notebook computes with Python floats, which are IEEE 754 binary64 numbers: 53
  significant bits, exponents of the unit in the last place from \<open>-1074\<close> (subnormal)
  upwards, every arithmetic result the exact result rounded to the nearest float, ties
  to the float with an even significand. A finite float is modelled by the real number it
  denotes (so \<open>-0.0\<close> and \<open>0.0\<close> are one value, as they are for Python's \<open>==\<close>
  and \<open><=\<close>); every operation rounds with \<open>rne\<close>. Infinities and NaN are
  not represented: no operation of the notebook produces one from draws in \<open>[0,1)\<close>,
  and the two conversions that raise \<open>OverflowError\<close> instead are modelled as errors.
\<close>

datatype py_error = IndexError | ZeroDivisionError | OverflowError

definition round_even :: "real \<Rightarrow> int" where
  "round_even x =
     (let f = \<lfloor>x\<rfloor>; r = x - of_int f
      in if r < 1 / 2 then f else if 1 / 2 < r then f + 1
         else if even f then f else f + 1)"

text \<open>
  The unit in the last place of the floats around \<open>x\<close> is \<open>2\<^sup>q\<close> for the least
  exponent \<open>q\<close>, from \<open>-1074\<close> to \<open>971\<close>, with \<open>\<bar>x\<bar> < 2\<^sup>q\<^sup>+\<^sup>5\<^sup>3\<close>:
  \<open>quantum\<close> looks for it from below. \<open>rne\<close> rounds \<open>x\<close> to the nearest
  multiple of that unit, a tie to the even multiple.
\<close>

fun ulp_search :: "nat \<Rightarrow> int \<Rightarrow> real \<Rightarrow> int" where
  "ulp_search 0 q x = q"
| "ulp_search (Suc n) q x = (if \<bar>x\<bar> < 2 powi (q + 53) then q else ulp_search n (q + 1) x)"

definition quantum :: "real \<Rightarrow> int" where
  "quantum x = ulp_search 2045 (- 1074) x"

definition rne :: "real \<Rightarrow> real" where
  "rne x = (if x = 0 then 0
            else of_int (round_even (x / 2 powi quantum x)) * 2 powi quantum x)"

definition float_add :: "real \<Rightarrow> real \<Rightarrow> real" where
  "float_add x y = rne (x + y)"

definition float_sub :: "real \<Rightarrow> real \<Rightarrow> real" where
  "float_sub x y = rne (x - y)"

definition float_mul :: "real \<Rightarrow> real \<Rightarrow> real" where
  "float_mul x y = rne (x * y)"

text \<open>
  \<open>x % 1\<close> on a float: C's \<open>fmod(x, 1.0)\<close>, which is exact and has the sign of
  \<open>x\<close>, and then, when that remainder is negative, the float addition of the divisor.
\<close>

definition float_mod1 :: "real \<Rightarrow> real" where
  "float_mod1 x =
     (let m = x - of_int (if 0 \<le> x then \<lfloor>x\<rfloor> else \<lceil>x\<rceil>)
      in if m < 0 then float_add m 1 else m)"

text \<open>
  \<open>a / b\<close> on two ints is the correctly rounded quotient; \<open>ZeroDivisionError\<close>
  for a zero divisor, \<open>OverflowError\<close> when the quotient is too large for a float.
  An int operand of a float operation is converted first, with \<open>OverflowError\<close>
  when it is too large.
\<close>

definition int_truediv :: "int \<Rightarrow> int \<Rightarrow> py_error + real" where
  "int_truediv a b =
     (if b = 0 then Inl ZeroDivisionError
      else let q = rne (of_int a / of_int b)
           in if 2 ^ 1024 \<le> \<bar>q\<bar> then Inl OverflowError else Inr q)"

definition int_to_float :: "int \<Rightarrow> py_error + real" where
  "int_to_float n =
     (let x = rne (of_int n)
      in if 2 ^ 1024 \<le> \<bar>x\<bar> then Inl OverflowError else Inr x)"

section \<open>The random source\<close>

text \<open>
  \<open>random.random()\<close> reads Python's global generator. The generator is modelled as
  the stream of floats it is going to return; a call returns the head and leaves the tail.
  Python documents the values as the multiples of \<open>2\<^sup>-\<^sup>5\<^sup>3\<close> in \<open>[0,1)\<close>.
\<close>

type_synonym rng = "nat \<Rightarrow> real"

definition random_random :: "rng \<Rightarrow> real \<times> rng" where
  "random_random g = (g 0, \<lambda>i. g (Suc i))"

definition random_value :: "real \<Rightarrow> bool" where
  "random_value x \<longleftrightarrow> 0 \<le> x \<and> x < 1 \<and> of_int \<lfloor>x * 2 ^ 53\<rfloor> = x * 2 ^ 53"

definition stream_of :: "real list \<Rightarrow> rng" where
  "stream_of xs i = (if i < length xs then xs ! i else 0)"

section \<open>The notebook's functions\<close>

text \<open>\<open>[random.random() for _ in range(duck_count)]\<close>\<close>

fun draws :: "nat \<Rightarrow> rng \<Rightarrow> real list \<times> rng" where
  "draws 0 g = ([], g)"
| "draws (Suc n) g =
     (let (x, g1) = random_random g; (xs, g2) = draws n g1 in (x # xs, g2))"

definition generate_ducks :: "int \<Rightarrow> rng \<Rightarrow> py_error + (real list \<times> rng)" where
  "generate_ducks duck_count g =
     (let (random_ducks, g') = draws (nat duck_count) g
      in case random_ducks of
           [] \<Rightarrow> Inl IndexError
         | d0 # _ \<Rightarrow>
             let rotation_delta = float_sub (1 / 2) d0;
                 rotated_ducks = map (\<lambda>duck. float_add duck rotation_delta) random_ducks;
                 ducks = map (\<lambda>duck. float_mod1 duck) rotated_ducks
             in Inr (sort ducks, g'))"

definition calculate_distance :: "real list \<Rightarrow> py_error + real" where
  "calculate_distance ducks =
     (case ducks of [] \<Rightarrow> Inl IndexError
      | _ # _ \<Rightarrow> Inr (float_sub (last ducks) (hd ducks)))"

definition test_distance :: "real \<Rightarrow> bool" where
  "test_distance distance \<longleftrightarrow> distance \<le> 1 / 2"

text \<open>
  The loop of \<open>test\<close>, with the number of iterations left, and \<open>test\<close> itself. The
  global \<open>iterations\<close> is a parameter. \<open>distances\<close> is created empty and returned
  as it is.
\<close>

fun test_loop :: "nat \<Rightarrow> int \<Rightarrow> int \<Rightarrow> rng \<Rightarrow> py_error + (int \<times> rng)" where
  "test_loop 0 duck_count hits g = Inr (hits, g)"
| "test_loop (Suc i) duck_count hits g =
     (case generate_ducks duck_count g of
        Inl e \<Rightarrow> Inl e
      | Inr (ducks, g') \<Rightarrow>
          (case calculate_distance ducks of
             Inl e \<Rightarrow> Inl e
           | Inr distance \<Rightarrow>
               let on_one_half = test_distance distance
               in test_loop i duck_count (if on_one_half then hits + 1 else hits) g'))"

definition test :: "int \<Rightarrow> int \<Rightarrow> rng \<Rightarrow> py_error + ((real list \<times> int \<times> real) \<times> rng)" where
  "test iterations duck_count g =
     (let distances = []
      in case test_loop (nat iterations) duck_count 0 g of
           Inl e \<Rightarrow> Inl e
         | Inr (hits, g') \<Rightarrow>
             (case int_truediv hits iterations of
                Inl e \<Rightarrow> Inl e
              | Inr p \<Rightarrow> Inr ((distances, hits, p), g')))"

text \<open>
  \<open>expected_result\<close> is modelled for \<open>duck_count \<ge> 1\<close>, where \<open>2 ** (duck_count-1)\<close>
  is an int. Below that Python computes a float power, and the result can be an infinity or
  NaN: \<open>None\<close> marks that part as outside the model.
\<close>

definition expected_result :: "int \<Rightarrow> (py_error + real) option" where
  "expected_result duck_count =
     (if duck_count < 1 then None
      else Some (case int_truediv 1 (2 ^ nat (duck_count - 1)) of
                   Inl e \<Rightarrow> Inl e
                 | Inr y \<Rightarrow>
                     (case int_to_float duck_count of
                        Inl e \<Rightarrow> Inl e
                      | Inr x \<Rightarrow> Inr (float_mul x y))))"

text \<open>
  What \<open>generate_ducks\<close> does to one draw \<open>duck\<close> when the first draw is
  \<open>d0\<close>: the rotation and the wrap.
\<close>

definition rotate :: "real \<Rightarrow> real \<Rightarrow> real" where
  "rotate d0 duck = float_mod1 (float_add duck (float_sub (1 / 2) d0))"

section \<open>The trials, as the specification counts them\<close>

text \<open>
  Trial \<open>j\<close> (from \<open>0\<close>) of a run with \<open>n\<close> ducks reads the draws
  \<open>j * n, \<dots>, j * n + n - 1\<close> of the stream. \<open>sample\<close> is its sorted sample,
  \<open>span\<close> the difference of the last and the first element of a sample, and
  \<open>hit_count\<close> the number of the first \<open>k\<close> trials whose span is at most \<open>0.5\<close>.
\<close>

definition sample :: "nat \<Rightarrow> rng \<Rightarrow> nat \<Rightarrow> real list" where
  "sample n g j = sort (map (\<lambda>i. rotate (g (j * n)) (g (j * n + i))) [0..<n])"

definition span :: "real list \<Rightarrow> real" where
  "span s = float_sub (last s) (hd s)"

definition hit_count :: "nat \<Rightarrow> nat \<Rightarrow> rng \<Rightarrow> nat" where
  "hit_count n k g = length (filter (\<lambda>j. span (sample n g j) \<le> 1 / 2) [0..<k])"

section \<open>Rotating the draws\<close>

text \<open>
  \<open>shift c v\<close> is the draw \<open>v\<close> moved by the offset \<open>c\<close> modulo 1, computed as the
  notebook computes a rotation: \<open>(v + c) % 1\<close>. \<open>outcome\<close> is the hit or miss of one
  trial: \<open>test_distance(calculate_distance(generate_ducks(duck_count)))\<close>.
  \<open>coarse_value\<close> holds of the multiples of \<open>2\<^sup>-\<^sup>5\<^sup>2\<close> in \<open>[0,1)\<close>, every second
  value of \<open>random.random()\<close>.
\<close>

definition shift :: "real \<Rightarrow> real \<Rightarrow> real" where
  "shift c v = float_mod1 (float_add v c)"

definition outcome :: "int \<Rightarrow> rng \<Rightarrow> py_error + bool" where
  "outcome duck_count g =
     (case generate_ducks duck_count g of
        Inl e \<Rightarrow> Inl e
      | Inr (ducks, g') \<Rightarrow>
          (case calculate_distance ducks of
             Inl e \<Rightarrow> Inl e
           | Inr distance \<Rightarrow> Inr (test_distance distance)))"

definition coarse_value :: "real \<Rightarrow> bool" where
  "coarse_value x \<longleftrightarrow> 0 \<le> x \<and> x < 1 \<and> of_int \<lfloor>x * 2 ^ 52\<rfloor> = x * 2 ^ 52"

section \<open>Rounding\<close>

lemma round_even_of_int: "round_even (of_int n) = n"
  by (simp add: round_even_def)

lemma round_even_le:
  assumes "x \<le> of_int n"
  shows "round_even x \<le> n"
proof -
  have f: "\<lfloor>x\<rfloor> \<le> n" using assms by (simp add: floor_le_iff)
  show ?thesis
  proof (cases "\<lfloor>x\<rfloor> = n")
    case True
    then have "x - of_int \<lfloor>x\<rfloor> \<le> 0" using assms by simp
    then show ?thesis using True by (simp add: round_even_def Let_def)
  next
    case False
    then have "\<lfloor>x\<rfloor> + 1 \<le> n" using f by simp
    then show ?thesis using f by (simp add: round_even_def Let_def)
  qed
qed

lemma round_even_ge:
  assumes "of_int n \<le> x"
  shows "n \<le> round_even x"
proof -
  have "n \<le> \<lfloor>x\<rfloor>" using assms by (simp add: le_floor_iff)
  then show ?thesis by (simp add: round_even_def Let_def)
qed

lemma round_even_small:
  assumes "0 \<le> t" and "t \<le> 1 / 2"
  shows "round_even t = 0"
proof -
  have "\<lfloor>t\<rfloor> = 0" using assms by (simp add: floor_eq_iff)
  then show ?thesis using assms by (simp add: round_even_def Let_def)
qed

lemma ulp_search_ge: "q \<le> ulp_search n q x"
proof (induction n arbitrary: q)
  case 0
  then show ?case by simp
next
  case (Suc n)
  from Suc [of "q + 1"] show ?case by simp
qed

lemma ulp_search_le:
  assumes "q \<le> j" and "\<bar>x\<bar> < 2 powi (j + 53)"
  shows "ulp_search n q x \<le> j"
  using assms(1)
proof (induction n arbitrary: q)
  case 0
  then show ?case by simp
next
  case (Suc n)
  show ?case
  proof (cases "\<bar>x\<bar> < 2 powi (q + 53)")
    case True
    then show ?thesis using Suc.prems by simp
  next
    case False
    then have "q \<noteq> j" using assms(2) by auto
    then have "q + 1 \<le> j" using Suc.prems by simp
    then show ?thesis using False Suc.IH by simp
  qed
qed

lemma ulp_search_eq:
  assumes "\<bar>x\<bar> < 2 powi (j + 53)" and "2 powi (j + 52) \<le> \<bar>x\<bar>"
  shows "q \<le> j \<Longrightarrow> j \<le> q + int n \<Longrightarrow> ulp_search n q x = j"
proof (induction n arbitrary: q)
  case 0
  then show ?case by simp
next
  case (Suc n)
  show ?case
  proof (cases "q = j")
    case True
    then show ?thesis using assms(1) by simp
  next
    case False
    then have lt: "q + 1 \<le> j" using Suc.prems by simp
    then have "(2::real) powi (q + 53) \<le> 2 powi (j + 52)"
      by (intro power_int_increasing) simp_all
    then have "\<not> \<bar>x\<bar> < 2 powi (q + 53)" using assms(2) by linarith
    moreover have "ulp_search n (q + 1) x = j" using lt Suc.prems by (intro Suc.IH) simp_all
    ultimately show ?thesis by simp
  qed
qed

lemma quantum_ge: "- 1074 \<le> quantum x"
  unfolding quantum_def by (rule ulp_search_ge)

lemma quantum_le:
  assumes "- 1074 \<le> j" and "\<bar>x\<bar> < 2 powi (j + 53)"
  shows "quantum x \<le> j"
  unfolding quantum_def using assms by (rule ulp_search_le)

lemma quantum_eq:
  assumes "\<bar>x\<bar> < 2 powi (j + 53)" and "2 powi (j + 52) \<le> \<bar>x\<bar>"
    and "- 1074 \<le> j" and "j \<le> 971"
  shows "quantum x = j"
  unfolding quantum_def using assms by (intro ulp_search_eq) simp_all

lemma powi_diff_int:
  assumes "q \<le> j"
  shows "(2::real) powi j = of_int (2 ^ nat (j - q)) * 2 powi q"
proof -
  have "(2::real) powi j = 2 powi ((j - q) + q)" by simp
  also have "\<dots> = 2 powi (j - q) * 2 powi q" by (rule power_int_add) simp
  also have "(2::real) powi (j - q) = 2 ^ nat (j - q)" using assms by (simp add: power_int_def)
  finally show ?thesis by simp
qed

lemma powi_neg: "(2::real) powi (- int k) = 1 / 2 ^ k"
  by (simp add: power_int_minus divide_inverse)

lemma rne_le:
  assumes "x \<le> of_int m * 2 powi j" and "quantum x \<le> j"
  shows "rne x \<le> of_int m * 2 powi j"
proof (cases "x = 0")
  case True
  then show ?thesis using assms(1) by (simp add: rne_def)
next
  case False
  define q where "q = quantum x"
  have p: "0 < (2::real) powi q" by simp
  have j: "(2::real) powi j = of_int (2 ^ nat (j - q)) * 2 powi q"
    using assms(2) by (simp add: q_def powi_diff_int)
  have "x / 2 powi q \<le> of_int (m * 2 ^ nat (j - q))"
    using assms(1) p by (simp add: j pos_divide_le_eq mult.assoc)
  then have "round_even (x / 2 powi q) \<le> m * 2 ^ nat (j - q)" by (rule round_even_le)
  then have "real_of_int (round_even (x / 2 powi q)) \<le> of_int (m * 2 ^ nat (j - q))"
    by linarith
  then have "real_of_int (round_even (x / 2 powi q)) * 2 powi q \<le> real_of_int (m * 2 ^ nat (j - q)) * 2 powi q"
    using p by (simp only: mult_le_cancel_right_pos)
  then show ?thesis using False by (simp add: rne_def q_def [symmetric] j mult.assoc)
qed

lemma rne_ge:
  assumes "of_int m * 2 powi j \<le> x" and "quantum x \<le> j"
  shows "of_int m * 2 powi j \<le> rne x"
proof (cases "x = 0")
  case True
  then show ?thesis using assms(1) by (simp add: rne_def)
next
  case False
  define q where "q = quantum x"
  have p: "0 < (2::real) powi q" by simp
  have j: "(2::real) powi j = of_int (2 ^ nat (j - q)) * 2 powi q"
    using assms(2) by (simp add: q_def powi_diff_int)
  have "of_int (m * 2 ^ nat (j - q)) \<le> x / 2 powi q"
    using assms(1) p by (simp add: j pos_le_divide_eq mult.assoc)
  then have "m * 2 ^ nat (j - q) \<le> round_even (x / 2 powi q)" by (rule round_even_ge)
  then have "real_of_int (m * 2 ^ nat (j - q)) \<le> of_int (round_even (x / 2 powi q))"
    by linarith
  then have "real_of_int (m * 2 ^ nat (j - q)) * 2 powi q \<le> real_of_int (round_even (x / 2 powi q)) * 2 powi q"
    using p by (simp only: mult_le_cancel_right_pos)
  then show ?thesis using False by (simp add: rne_def q_def [symmetric] j mult.assoc)
qed

lemma rne_exact:
  assumes "x = of_int m * 2 powi j" and "quantum x \<le> j"
  shows "rne x = x"
  using rne_le [of x m j] rne_ge [of m j x] assms by simp

lemma rne_dyadic:
  assumes "\<bar>m\<bar> < 2 ^ 53" and "- 1074 \<le> j"
  shows "rne (of_int m * 2 powi j) = of_int m * 2 powi j"
proof (cases "m = 0")
  case True
  then show ?thesis by (simp add: rne_def)
next
  case False
  let ?x = "real_of_int m * 2 powi j"
  have "real_of_int \<bar>m\<bar> < real_of_int (2 ^ 53)" using assms(1) by (simp only: of_int_less_iff)
  then have "\<bar>real_of_int m\<bar> < 2 ^ 53" by simp
  then have "\<bar>?x\<bar> < 2 ^ 53 * 2 powi j" by (simp add: abs_mult)
  also have "\<dots> = 2 powi (j + 53)" by (simp add: power_int_add)
  finally have "quantum ?x \<le> j" using quantum_le [OF assms(2)] by simp
  then show ?thesis by (rule rne_exact [OF refl])
qed

lemma rne_of_int: "\<bar>n\<bar> < 2 ^ 53 \<Longrightarrow> rne (of_int n) = of_int n"
  using rne_dyadic [of n 0] by simp

lemma rne_grid53:
  assumes "\<bar>m\<bar> < 2 ^ 53"
  shows "rne (of_int m / 2 ^ 53) = of_int m / 2 ^ 53"
proof -
  have "(2::real) powi (- 53) = 1 / 2 ^ 53" by simp
  then have "real_of_int m * 2 powi (- 53) = of_int m / 2 ^ 53" by (simp only: times_divide_eq_right mult_1_right)
  then show ?thesis using rne_dyadic [OF assms, of "- 53"] by simp
qed

lemma rne_grid52:
  assumes "\<bar>m\<bar> < 2 ^ 53"
  shows "rne (of_int m / 2 ^ 52) = of_int m / 2 ^ 52"
proof -
  have "real_of_int m * 2 powi (- int 52) = of_int m / 2 ^ 52"
    by (simp only: powi_neg times_divide_eq_right mult_1_right)
  then show ?thesis using rne_dyadic [OF assms, of "- 52"] by simp
qed

lemma rne_unit:
  assumes "0 \<le> x" and "x \<le> 1"
  shows "0 \<le> rne x" and "rne x \<le> 1"
proof -
  have q: "quantum x \<le> 0" if "x \<noteq> 0"
  proof -
    have "\<bar>x\<bar> < 2 powi (0 + 53)" using assms by simp
    then show ?thesis using quantum_le [of 0 x] by simp
  qed
  have "0 \<le> rne x \<and> rne x \<le> 1"
  proof (cases "x = 0")
    case True
    then show ?thesis by (simp add: rne_def)
  next
    case False
    have "of_int 0 * 2 powi 0 \<le> rne x" using assms by (intro rne_ge q [OF False]) simp
    moreover have "rne x \<le> of_int 1 * 2 powi 0" using assms by (intro rne_le q [OF False]) simp
    ultimately show ?thesis by simp
  qed
  then show "0 \<le> rne x" and "rne x \<le> 1" by simp_all
qed

lemma rne_one_to_three_halves:
  assumes "1 \<le> x" and "x \<le> 3 / 2"
  shows "1 \<le> rne x" and "rne x \<le> 3 / 2"
proof -
  have "\<bar>x\<bar> < 2 powi (- 1 + 53)" using assms by simp
  then have q1: "quantum x \<le> - 1" using quantum_le [of "- 1" x] by simp
  then have q0: "quantum x \<le> 0" by simp
  have "of_int 1 * 2 powi 0 \<le> rne x" using assms by (intro rne_ge q0) simp
  then show "1 \<le> rne x" by simp
  have "rne x \<le> of_int 3 * 2 powi (- 1)" using assms by (intro rne_le q1) (simp add: power_int_minus)
  then show "rne x \<le> 3 / 2" by (simp add: power_int_minus)
qed

lemma rne_one_two:
  assumes "1 \<le> x" and "x < 2"
  shows "rne x = of_int (round_even (x * 2 ^ 52)) / 2 ^ 52"
proof -
  have "\<bar>x\<bar> < 2 powi (- 52 + 53)" and "2 powi (- 52 + 52) \<le> \<bar>x\<bar>" using assms by simp_all
  then have q: "quantum x = - int 52" using quantum_eq [of x "- 52"] by simp
  have "x \<noteq> 0" using assms by simp
  then show ?thesis by (simp only: rne_def q powi_neg) simp
qed

lemma round_even_near: "\<bar>of_int (round_even t) - t\<bar> \<le> 1 / 2"
proof -
  have "of_int \<lfloor>t\<rfloor> \<le> t" and "t < of_int \<lfloor>t\<rfloor> + 1" by linarith+
  then show ?thesis by (auto simp: round_even_def Let_def)
qed

lemma rne_near:
  assumes "1 \<le> x" and "x < 2"
  shows "\<bar>rne x - x\<bar> \<le> 1 / 2 ^ 53"
proof -
  define r where "r = round_even (x * 2 ^ 52)"
  have "\<bar>of_int r - x * 2 ^ 52\<bar> \<le> 1 / 2" unfolding r_def by (rule round_even_near)
  then have "\<bar>of_int r - x * 2 ^ 52\<bar> / 2 ^ 52 \<le> (1 / 2) / 2 ^ 52"
    by (intro divide_right_mono) simp_all
  moreover have "\<bar>of_int r - x * 2 ^ 52\<bar> / 2 ^ 52 = \<bar>(of_int r - x * 2 ^ 52) / 2 ^ 52\<bar>"
    by (rule abs_div_pos) simp
  moreover have "(of_int r - x * 2 ^ 52) / 2 ^ 52 = of_int r / 2 ^ 52 - x"
    by (simp add: diff_divide_distrib)
  ultimately have "\<bar>of_int r / 2 ^ 52 - x\<bar> \<le> (1 / 2) / 2 ^ 52" by (simp only:)
  then show ?thesis by (simp add: rne_one_two [OF assms] r_def)
qed

lemma rne_half_one:
  assumes "1 / 2 \<le> x" and "x < 1"
  shows "rne x = of_int (round_even (x * 2 ^ 53)) / 2 ^ 53"
proof -
  have "\<bar>x\<bar> < 2 powi (- 53 + 53)" and "2 powi (- 53 + 52) \<le> \<bar>x\<bar>" using assms by simp_all
  then have q: "quantum x = - int 53" using quantum_eq [of x "- 53"] by simp
  have "x \<noteq> 0" using assms by simp
  then show ?thesis by (simp only: rne_def q powi_neg) simp
qed

lemma rne_underflow:
  assumes "1075 \<le> k"
  shows "rne (1 / 2 ^ k) = 0"
proof -
  let ?x = "(1::real) / 2 ^ k"
  have "(2::real) powi (- int k) < 2 powi (- 1074 + 53)"
    using assms by (intro power_int_strict_increasing) simp_all
  moreover have "\<bar>?x\<bar> = 2 powi (- int k)" by (simp only: powi_neg) simp
  ultimately have "\<bar>?x\<bar> < 2 powi (- 1074 + 53)" by (simp only:)
  then have "quantum ?x \<le> - 1074" by (intro quantum_le) simp
  then have q: "quantum ?x = - 1074" using quantum_ge [of ?x] by simp
  define j where "j = k - 1075"
  have j: "k = Suc j + 1074" using assms by (simp add: j_def)
  have "(2::real) powi (- 1074) = 1 / 2 ^ 1074" using powi_neg [of 1074] by simp
  then have "?x / 2 powi (- 1074) = 2 ^ 1074 / 2 ^ k" by simp
  also have "\<dots> = 1 / 2 ^ Suc j" by (simp only: j power_add) simp
  finally have t: "?x / 2 powi (- 1074) = 1 / 2 ^ Suc j" .
  have "(1::real) / 2 ^ Suc j \<le> 1 / 2 ^ Suc 0"
    by (intro divide_left_mono power_increasing) simp_all
  then have "round_even (1 / 2 ^ Suc j) = 0" by (intro round_even_small) simp_all
  then show ?thesis by (simp only: rne_def q t) simp
qed

section \<open>Float operations\<close>

lemma random_valueE:
  assumes "random_value x"
  obtains a where "0 \<le> a" and "a < 2 ^ 53" and "x = of_int a / 2 ^ 53"
proof -
  define a where "a = \<lfloor>x * 2 ^ 53\<rfloor>"
  have eq: "of_int a = x * 2 ^ 53" using assms by (simp add: random_value_def a_def)
  then have x: "x = of_int a / 2 ^ 53" by simp
  have "0 \<le> x * 2 ^ 53" using assms by (simp add: random_value_def)
  then have a0: "0 \<le> a" by (simp add: a_def)
  have "x * 2 ^ 53 < 1 * 2 ^ 53" using assms by (simp add: random_value_def)
  then have "real_of_int a < real_of_int (2 ^ 53)" using eq by simp
  then have "a < 2 ^ 53" by (simp only: of_int_less_iff)
  from that [OF a0 this x] show ?thesis .
qed

lemma rne_random_value: "random_value x \<Longrightarrow> rne x = x"
  by (erule random_valueE) (simp only: rne_grid53 abs_of_nonneg)

lemma coarse_valueE:
  assumes "coarse_value x"
  obtains a where "0 \<le> a" and "a < 2 ^ 52" and "x = of_int a / 2 ^ 52"
proof -
  define a where "a = \<lfloor>x * 2 ^ 52\<rfloor>"
  have eq: "of_int a = x * 2 ^ 52" using assms by (simp add: coarse_value_def a_def)
  then have x: "x = of_int a / 2 ^ 52" by simp
  have "0 \<le> x * 2 ^ 52" using assms by (simp add: coarse_value_def)
  then have a0: "0 \<le> a" by (simp add: a_def)
  have "x * 2 ^ 52 < 1 * 2 ^ 52" using assms by (simp add: coarse_value_def)
  then have "real_of_int a < real_of_int (2 ^ 52)" using eq by simp
  then have "a < 2 ^ 52" by (simp only: of_int_less_iff)
  from that [OF a0 this x] show ?thesis .
qed

lemma float_sub_self: "float_sub x x = 0"
  by (simp add: float_sub_def rne_def)

lemma float_mod1_unit:
  assumes "0 \<le> x" and "x < 1"
  shows "float_mod1 x = x"
proof -
  have "\<lfloor>x\<rfloor> = 0" using assms by (simp add: floor_eq_iff)
  then show ?thesis using assms by (simp add: float_mod1_def Let_def)
qed

lemma float_mod1_above: 
  assumes "1 \<le> x" and "x < 2" 
  shows "float_mod1 x = x - 1"
proof -
  have "\<lfloor>x\<rfloor> = 1" using assms by (simp add: floor_eq_iff)
  then show ?thesis using assms by (simp add: float_mod1_def Let_def)
qed

lemma float_mod1_below:
  assumes "- 1 < x" and "x < 0"
  shows "float_mod1 x = float_add x 1"
proof -
  have "\<lceil>x\<rceil> = 0" using assms by (simp add: ceiling_eq_iff)
  then show ?thesis using assms by (simp add: float_mod1_def Let_def)
qed

lemma int_truediv_fraction:
  assumes "0 \<le> a" and "a \<le> b" and "0 < b"
  shows "int_truediv a b = Inr (rne (of_int a / of_int b))"
proof -
  have "0 \<le> real_of_int a / of_int b" and "real_of_int a / of_int b \<le> 1"
    using assms by simp_all
  from rne_unit [OF this] have "\<bar>rne (real_of_int a / of_int b)\<bar> \<le> 1" by simp
  also have "(1::real) < 2 ^ 1024" by simp
  finally show ?thesis using assms by (simp add: int_truediv_def Let_def)
qed

lemma rotation_delta_exact:
  assumes "0 \<le> b" and "b < 2 ^ 53"
  shows "float_sub (1 / 2) (of_int b / 2 ^ 53) = of_int (2 ^ 52 - b) / 2 ^ 53"
proof -
  have "\<bar>2 ^ 52 - b\<bar> < 2 ^ 53" using assms by simp
  then have "rne (of_int (2 ^ 52 - b) / 2 ^ 53) = of_int (2 ^ 52 - b) / 2 ^ 53"
    by (rule rne_grid53)
  moreover have "(1::real) / 2 - of_int b / 2 ^ 53 = of_int (2 ^ 52 - b) / 2 ^ 53"
    by (simp add: field_simps)
  ultimately show ?thesis by (simp only: float_sub_def)
qed

lemma random_valueI:
  assumes "0 \<le> k" and "k < 2 ^ 53"
  shows "random_value (of_int k / 2 ^ 53)"
proof -
  have "real_of_int 0 \<le> of_int k" and "real_of_int k < of_int (2 ^ 53)"
    using assms by (simp_all only: of_int_le_iff of_int_less_iff)
  then show ?thesis by (simp add: random_value_def)
qed

lemma random_value_diff:
  assumes "random_value a" and "random_value b" and "b \<le> a"
  shows "random_value (a - b)"
proof -
  from assms(1) obtain k where k: "0 \<le> k" "k < 2 ^ 53" and a: "a = of_int k / 2 ^ 53"
    by (rule random_valueE)
  from assms(2) obtain l where l: "0 \<le> l" "l < 2 ^ 53" and b: "b = of_int l / 2 ^ 53"
    by (rule random_valueE)
  have "real_of_int l \<le> of_int k" using assms(3) by (simp add: a b divide_le_cancel)
  then have "l \<le> k" by (simp only: of_int_le_iff)
  then have "random_value (of_int (k - l) / 2 ^ 53)" using k l by (intro random_valueI) simp_all
  then show ?thesis by (simp add: a b diff_divide_distrib)
qed

text \<open>
  A float sum \<open>x\<close> in \<open>[1,2)\<close> whose rounding stays below \<open>2\<close>: the wrap takes
  \<open>1\<close> off, the result is a multiple of \<open>2\<^sup>-\<^sup>5\<^sup>3\<close> in \<open>[0,1)\<close>, and it is within
  \<open>2\<^sup>-\<^sup>5\<^sup>3\<close> of the exact \<open>x - 1\<close>.
\<close>

lemma wrap_above:
  assumes "1 \<le> x" and "x < 2" and "rne x < 2"
  shows "float_mod1 (rne x) = rne x - 1" and "random_value (rne x - 1)"
    and "\<bar>rne x - 1 - (x - 1)\<bar> \<le> 1 / 2 ^ 53"
proof -
  define r where "r = round_even (x * 2 ^ 52)"
  have rx: "rne x = of_int r / 2 ^ 52" by (simp add: rne_one_two [OF assms(1,2)] r_def)
  have q: "quantum x \<le> 0" using assms by (intro quantum_le) simp_all
  have "of_int 1 * 2 powi 0 \<le> rne x" using assms(1) by (intro rne_ge q) simp
  then have ge: "1 \<le> rne x" by simp
  show "float_mod1 (rne x) = rne x - 1" using ge assms(3) by (rule float_mod1_above)
  have "real_of_int (2 ^ 52) \<le> of_int r" using ge by (simp add: rx pos_le_divide_eq)
  then have r1: "2 ^ 52 \<le> r" by (simp only: of_int_le_iff)
  have "real_of_int r < of_int (2 ^ 53)" using assms(3) by (simp add: rx pos_divide_less_eq)
  then have r2: "r < 2 ^ 53" by (simp only: of_int_less_iff)
  have "random_value (of_int (2 * r - 2 ^ 53) / 2 ^ 53)" using r1 r2 by (intro random_valueI) simp_all
  moreover have "real_of_int (2 * r - 2 ^ 53) / 2 ^ 53 = of_int r / 2 ^ 52 - 1"
    by (simp add: diff_divide_distrib)
  ultimately show "random_value (rne x - 1)" by (simp only: rx)
  show "\<bar>rne x - 1 - (x - 1)\<bar> \<le> 1 / 2 ^ 53" using rne_near [OF assms(1,2)] by simp
qed

section \<open>The sample generator\<close>

lemma draws_eq: "draws n g = (map g [0..<n], \<lambda>i. g (i + n))"
proof (induction n arbitrary: g)
  case 0
  then show ?case by simp
next
  case (Suc n)
  have "map g [0..<Suc n] = g 0 # map (\<lambda>i. g (Suc i)) [0..<n]"
    by (simp only: upt_conv_Cons [of 0 "Suc n"] map_Suc_upt [symmetric]) (simp add: comp_def)
  then show ?case by (simp add: Suc random_random_def)
qed

lemma generate_ducks_error: "duck_count \<le> 0 \<Longrightarrow> generate_ducks duck_count g = Inl IndexError"
  by (simp add: generate_ducks_def draws_eq)

lemma generate_ducks_ok:
  assumes "1 \<le> duck_count"
  shows "generate_ducks duck_count g =
           Inr (sort (map (\<lambda>i. rotate (g 0) (g i)) [0..<nat duck_count]),
                \<lambda>i. g (i + nat duck_count))"
proof -
  have n: "0 < nat duck_count" using assms by simp
  then have ne: "[0..<nat duck_count] \<noteq> []" by simp
  have "hd (map g [0..<nat duck_count]) = g 0"
    using n by (simp add: hd_map del: upt_Suc)
  then show ?thesis
    using ne by (simp add: generate_ducks_def draws_eq Let_def list.case_eq_if rotate_def comp_def del: upt_Suc)
qed

lemma calculate_distance_ok:
  "ducks \<noteq> [] \<Longrightarrow> calculate_distance ducks = Inr (float_sub (last ducks) (hd ducks))"
  by (cases ducks) (simp_all add: calculate_distance_def)

text \<open>The value of \<open>rotate\<close> on two draws, from their numerators.\<close>

lemma rotate_grid53:
  assumes a: "0 \<le> a" "a < 2 ^ 53" and b: "0 \<le> b" "b < 2 ^ 53"
  defines "c \<equiv> a + 2 ^ 52 - b"
  shows "rotate (of_int b / 2 ^ 53) (of_int a / 2 ^ 53) =
           (if c < 0 then of_int (c + 2 ^ 53) / 2 ^ 53
            else if c < 2 ^ 53 then of_int c / 2 ^ 53
            else rne (of_int c / 2 ^ 53) - 1)"
proof -
  have sum: "real_of_int a / 2 ^ 53 + of_int (2 ^ 52 - b) / 2 ^ 53 = of_int c / 2 ^ 53"
    by (simp add: c_def field_simps)
  have rot: "rotate (of_int b / 2 ^ 53) (of_int a / 2 ^ 53) = float_mod1 (rne (of_int c / 2 ^ 53))"
    by (simp only: rotate_def rotation_delta_exact [OF b] float_add_def sum)
  have lo: "- (2 ^ 52) < c" and hi: "c < 3 * 2 ^ 52" using a b by (simp_all add: c_def)
  consider "c < 0" | "0 \<le> c" "c < 2 ^ 53" | "2 ^ 53 \<le> c" by linarith
  then show ?thesis
  proof cases
    case 1
    then have "\<bar>c\<bar> < 2 ^ 53" using lo by simp
    then have r: "rne (of_int c / 2 ^ 53) = of_int c / 2 ^ 53" by (rule rne_grid53)
    have neg: "real_of_int c / 2 ^ 53 < 0" using 1 by (simp add: divide_neg_pos)
    have "- (2 ^ 53) < c" using lo by simp
    then have "real_of_int (- (2 ^ 53)) < of_int c" by (simp only: of_int_less_iff)
    then have gt: "- 1 < real_of_int c / 2 ^ 53" by (simp add: pos_less_divide_eq)
    have "\<bar>c + 2 ^ 53\<bar> < 2 ^ 53" using 1 lo by simp
    then have "rne (of_int (c + 2 ^ 53) / 2 ^ 53) = of_int (c + 2 ^ 53) / 2 ^ 53"
      by (rule rne_grid53)
    moreover have "real_of_int c / 2 ^ 53 + 1 = of_int (c + 2 ^ 53) / 2 ^ 53"
      by (simp add: field_simps)
    ultimately have "float_add (of_int c / 2 ^ 53) 1 = of_int (c + 2 ^ 53) / 2 ^ 53"
      by (simp only: float_add_def)
    then show ?thesis using 1 by (simp only: rot r float_mod1_below [OF gt neg] if_True)
  next
    case 2
    then have "\<bar>c\<bar> < 2 ^ 53" by simp
    then have r: "rne (of_int c / 2 ^ 53) = of_int c / 2 ^ 53" by (rule rne_grid53)
    have ge: "0 \<le> real_of_int c / 2 ^ 53" using 2 by simp
    have "real_of_int c < of_int (2 ^ 53)" using 2 by (simp only: of_int_less_iff)
    then have lt: "real_of_int c / 2 ^ 53 < 1" by (simp add: pos_divide_less_eq)
    have "\<not> c < 0" using 2 by simp
    then show ?thesis using 2 by (simp only: rot r float_mod1_unit [OF ge lt] if_True if_False)
  next
    case 3
    have "real_of_int (2 ^ 53) \<le> of_int c" using 3 by (simp only: of_int_le_iff)
    then have ge: "1 \<le> real_of_int c / 2 ^ 53" by (simp add: pos_le_divide_eq)
    have "c \<le> 3 * 2 ^ 52" using hi by simp
    then have "real_of_int c \<le> of_int (3 * 2 ^ 52)" by (simp only: of_int_le_iff)
    then have le: "real_of_int c / 2 ^ 53 \<le> 3 / 2" by (simp add: pos_divide_le_eq)
    note rne_one_to_three_halves [OF ge le]
    then have "float_mod1 (rne (of_int c / 2 ^ 53)) = rne (of_int c / 2 ^ 53) - 1"
      by (intro float_mod1_above) simp_all
    moreover have "\<not> c < 0" "\<not> c < 2 ^ 53" using 3 by simp_all
    ultimately show ?thesis by (simp only: rot if_False)
  qed
qed

lemma rotate_range:
  assumes "random_value d0" and "random_value d"
  shows "0 \<le> rotate d0 d \<and> rotate d0 d < 1"
proof -
  from assms(1) obtain b where b: "0 \<le> b" "b < 2 ^ 53" and d0: "d0 = of_int b / 2 ^ 53"
    by (rule random_valueE)
  from assms(2) obtain a where a: "0 \<le> a" "a < 2 ^ 53" and d: "d = of_int a / 2 ^ 53"
    by (rule random_valueE)
  define c where "c = a + 2 ^ 52 - b"
  have lo: "- (2 ^ 52) < c" and hi: "c < 3 * 2 ^ 52" using a b by (simp_all add: c_def)
  note rot = rotate_grid53 [OF a b, folded c_def d0 d]
  consider "c < 0" | "0 \<le> c" "c < 2 ^ 53" | "2 ^ 53 \<le> c" by linarith
  then show ?thesis
  proof cases
    case 1
    have "0 \<le> c + 2 ^ 53" using lo by simp
    then have "real_of_int 0 \<le> of_int (c + 2 ^ 53)" by (simp only: of_int_le_iff)
    moreover have "c + 2 ^ 53 < 2 ^ 53" using 1 by simp
    then have "real_of_int (c + 2 ^ 53) < of_int (2 ^ 53)" by (simp only: of_int_less_iff)
    ultimately show ?thesis using 1 by (simp add: rot pos_divide_less_eq)
  next
    case 2
    have "real_of_int 0 \<le> of_int c" using 2 by (simp only: of_int_le_iff)
    moreover have "real_of_int c < of_int (2 ^ 53)" using 2 by (simp only: of_int_less_iff)
    ultimately show ?thesis using 2 by (simp add: rot pos_divide_less_eq)
  next
    case 3
    have "real_of_int (2 ^ 53) \<le> of_int c" using 3 by (simp only: of_int_le_iff)
    then have ge: "1 \<le> real_of_int c / 2 ^ 53" by (simp add: pos_le_divide_eq)
    have "c \<le> 3 * 2 ^ 52" using hi by simp
    then have "real_of_int c \<le> of_int (3 * 2 ^ 52)" by (simp only: of_int_le_iff)
    then have le: "real_of_int c / 2 ^ 53 \<le> 3 / 2" by (simp add: pos_divide_le_eq)
    from rne_one_to_three_halves [OF ge le] show ?thesis using 3 by (simp add: rot)
  qed
qed

lemma rotate_anchor:
  assumes "random_value d0"
  shows "float_add d0 (float_sub (1 / 2) d0) = 1 / 2" and "rotate d0 d0 = 1 / 2"
proof -
  from assms obtain b where b: "0 \<le> b" "b < 2 ^ 53" and d0: "d0 = of_int b / 2 ^ 53"
    by (rule random_valueE)
  have "rne (of_int (2 ^ 52) / 2 ^ 53) = of_int (2 ^ 52) / 2 ^ 53"
    by (rule rne_grid53) simp
  then have half: "rne (1 / 2) = 1 / 2" by simp
  have "d0 + of_int (2 ^ 52 - b) / 2 ^ 53 = 1 / 2" by (simp add: d0 field_simps)
  then show sum: "float_add d0 (float_sub (1 / 2) d0) = 1 / 2"
    by (simp only: float_add_def rotation_delta_exact [OF b, folded d0] half)
  show "rotate d0 d0 = 1 / 2"
    by (simp add: rotate_def sum float_mod1_unit)
qed

lemma rotate_half:
  assumes "random_value d"
  shows "rotate (1 / 2) d = d"
proof -
  have "0 \<le> d" and "d < 1" using assms by (simp_all add: random_value_def)
  then show ?thesis
    by (simp add: rotate_def float_sub_self float_add_def rne_random_value [OF assms] float_mod1_unit)
qed

text \<open>
  The range of \<open>random.random()\<close> matters for the wrap: a draw that is a float but not
  a multiple of \<open>2\<^sup>-\<^sup>5\<^sup>3\<close> can be rotated to a tiny negative number, and the wrap of
  that is \<open>1.0\<close>.
\<close>

lemma rotate_off_grid: "rotate (1 / 2 + 1 / 2 ^ 53) (127 / 2 ^ 60) = 1"
proof -
  define u :: real where "u = 1 / 2 ^ 53"
  define w :: real where "w = 1 / 2 ^ 60"
  have w: "0 < w" "w < 1 / 2" by (simp_all add: w_def)
  have "rne (of_int (- 1) / 2 ^ 53) = of_int (- 1) / 2 ^ 53" by (rule rne_grid53) simp
  then have delta: "rne (- u) = - u" by (simp add: u_def)
  have "rne (of_int (- 1) * 2 powi (- int 60)) = of_int (- 1) * 2 powi (- int 60)"
    by (rule rne_dyadic) simp_all
  then have sum: "rne (- w) = - w" by (simp only: powi_neg w_def) simp
  have top: "rne (1 - w) = 1"
    unfolding w_def using rne_half_one [of "1 - 1 / 2 ^ 60"] by (simp add: round_even_def)
  have wrap: "float_mod1 (- w) = float_add (- w) 1"
    using float_mod1_below [of "- w"] w by simp
  have sums: "1 / 2 - (1 / 2 + u) = - u" "127 * w + - u = - w" "- w + 1 = 1 - w"
    by (simp_all add: u_def w_def)
  have "rotate (1 / 2 + u) (127 * w) = 1"
    by (simp only: rotate_def float_sub_def float_add_def sums delta sum wrap top)
  then show ?thesis by (simp add: u_def w_def)
qed

section \<open>The trial runner\<close>

lemma upt_numerals: "[0..<2] = [0, 1]" "[0..<3] = [0, 1, 2]"
  by code_simp+

lemma sample_shift: "sample n (\<lambda>i. g (i + n)) j = sample n g (Suc j)"
  by (simp add: sample_def add.commute add.left_commute)

lemma hit_count_Suc:
  "hit_count n (Suc k) g =
     (if span (sample n g 0) \<le> 1 / 2 then 1 else 0) + hit_count n k (\<lambda>i. g (i + n))"
proof -
  have "[0..<Suc k] = 0 # map Suc [0..<k]"
    by (simp only: upt_conv_Cons [OF zero_less_Suc] map_Suc_upt)
  then show ?thesis
    by (simp add: hit_count_def filter_map comp_def sample_shift del: upt_Suc)
qed

lemma hit_count_le: "hit_count n k g \<le> k"
  using length_filter_le [of _ "[0..<k]"] by (simp add: hit_count_def)

lemma trial:
  assumes "1 \<le> duck_count"
  shows "generate_ducks duck_count g =
           Inr (sample (nat duck_count) g 0, \<lambda>i. g (i + nat duck_count))"
    and "calculate_distance (sample (nat duck_count) g 0) =
           Inr (span (sample (nat duck_count) g 0))"
proof -
  show "generate_ducks duck_count g =
           Inr (sample (nat duck_count) g 0, \<lambda>i. g (i + nat duck_count))"
    by (simp add: generate_ducks_ok [OF assms] sample_def)
  have "length (sample (nat duck_count) g 0) = nat duck_count" by (simp add: sample_def)
  then have "sample (nat duck_count) g 0 \<noteq> []" using assms by (cases "sample (nat duck_count) g 0") simp_all
  then show "calculate_distance (sample (nat duck_count) g 0) =
           Inr (span (sample (nat duck_count) g 0))"
    by (simp add: calculate_distance_ok span_def)
qed

lemma outcome_ok:
  assumes "1 \<le> duck_count"
  shows "outcome duck_count g = Inr (span (sample (nat duck_count) g 0) \<le> 1 / 2)"
  by (simp add: outcome_def trial [OF assms] test_distance_def)

lemma test_loop_ok:
  assumes "1 \<le> duck_count"
  shows "test_loop i duck_count hits g =
           Inr (hits + int (hit_count (nat duck_count) i g), \<lambda>j. g (j + i * nat duck_count))"
proof (induction i arbitrary: hits g)
  case 0
  then show ?case by (simp add: hit_count_def)
next
  case (Suc i)
  show ?case
    by (simp add: trial [OF assms] Suc hit_count_Suc test_distance_def add.assoc
        add.commute [of "nat duck_count"])
qed

lemma test_loop_error:
  "duck_count \<le> 0 \<Longrightarrow> test_loop (Suc i) duck_count hits g = Inl IndexError"
  by (simp add: generate_ducks_error)

lemma test_ok:
  assumes "1 \<le> duck_count" and "1 \<le> iterations"
  shows "test iterations duck_count g =
           Inr (([], int (hit_count (nat duck_count) (nat iterations) g),
                 rne (of_nat (hit_count (nat duck_count) (nat iterations) g) / of_int iterations)),
                \<lambda>j. g (j + nat iterations * nat duck_count))"
proof -
  let ?h = "hit_count (nat duck_count) (nat iterations) g"
  have "int ?h \<le> iterations" using hit_count_le [of "nat duck_count" "nat iterations" g] assms(2) by simp
  then have "int_truediv (int ?h) iterations = Inr (rne (of_int (int ?h) / of_int iterations))"
    using assms(2) by (intro int_truediv_fraction) simp_all
  then show ?thesis by (simp add: test_def test_loop_ok [OF assms(1)])
qed

lemma test_no_iterations:
  "iterations = 0 \<Longrightarrow> test iterations duck_count g = Inl ZeroDivisionError"
  "iterations < 0 \<Longrightarrow> test iterations duck_count g = Inr (([], 0, 0), g)"
  by (simp_all add: test_def int_truediv_def rne_def)

lemma test_no_ducks:
  assumes "duck_count \<le> 0" and "1 \<le> iterations"
  shows "test iterations duck_count g = Inl IndexError"
proof -
  obtain i where "nat iterations = Suc i" using assms(2) by (cases "nat iterations") simp_all
  then show ?thesis by (simp add: test_def test_loop_error [OF assms(1)] del: test_loop.simps)
qed

section \<open>The expected probability\<close>

lemma expected_result_underflow:
  assumes "1076 \<le> n" and "n < 2 ^ 53"
  shows "expected_result n = Some (Inr 0)"
proof -
  define k where "k = nat (n - 1)"
  have k: "1075 \<le> k" using assms by (simp add: k_def)
  have d: "int_truediv 1 (2 ^ k) = Inr 0"
    by (simp add: int_truediv_def rne_underflow [OF k])
  have n53: "\<bar>n\<bar> < 2 ^ 53" using assms by simp
  have "\<bar>real_of_int n\<bar> < real_of_int (2 ^ 53)" using n53 by (simp only: of_int_abs [symmetric] of_int_less_iff)
  also have "real_of_int (2 ^ 53) < 2 ^ 1024" by simp
  finally have c: "int_to_float n = Inr (of_int n)"
    by (simp add: int_to_float_def rne_of_int [OF n53])
  show ?thesis using assms(1)
    by (simp add: expected_result_def k_def [symmetric] d c float_mul_def rne_def)
qed

lemma expected_result_small:
  assumes "1 \<le> n" and "n \<le> 1075"
  shows "expected_result n = Some (Inr (of_int n / 2 ^ nat (n - 1)))"
proof -
  define k where "k = nat (n - 1)"
  have k: "int k \<le> 1074" using assms by (simp add: k_def)
  note pk = powi_neg [of k]
  have "rne (of_int 1 * 2 powi (- int k)) = of_int 1 * 2 powi (- int k)"
    using k by (intro rne_dyadic) simp_all
  then have y: "rne (1 / 2 ^ k) = 1 / 2 ^ k" by (simp add: pk)
  have "(1::real) / 2 ^ k \<le> 1" by (simp add: divide_le_eq_1)
  also have "(1::real) < 2 ^ 1024" by simp
  finally have d: "int_truediv 1 (2 ^ k) = Inr (1 / 2 ^ k)"
    by (simp add: int_truediv_def y)
  have n53: "\<bar>n\<bar> < 2 ^ 53" using assms by simp
  have "\<bar>real_of_int n\<bar> \<le> 1075" using assms by simp
  also have "(1075::real) < 2 ^ 1024" by simp
  finally have c: "int_to_float n = Inr (of_int n)"
    by (simp add: int_to_float_def rne_of_int [OF n53])
  have "rne (of_int n * 2 powi (- int k)) = of_int n * 2 powi (- int k)"
    using k n53 by (intro rne_dyadic) simp_all
  then have "float_mul (of_int n) (1 / 2 ^ k) = of_int n / 2 ^ k"
    by (simp add: float_mul_def pk)
  then show ?thesis using assms(1) by (simp add: expected_result_def k_def [symmetric] d c)
qed

section \<open>Rotation of the draws\<close>

lemma mod_wrap_up:
  fixes c P :: int
  assumes "- P \<le> c" and "c < 0"
  shows "c mod P = c + P"
proof -
  have "(c + P) mod P = c + P" using assms by (intro mod_pos_pos_trivial) simp_all
  then show ?thesis by simp
qed

lemma mod_wrap_down:
  fixes c P :: int
  assumes "P \<le> c" and "c < 2 * P"
  shows "c mod P = c - P"
proof -
  have "(c - P) mod P = c - P" using assms by (intro mod_pos_pos_trivial) simp_all
  then show ?thesis by simp
qed

lemma mod_diff_add:
  fixes x y h P :: int
  shows "(x mod P - y mod P + h) mod P = (x - y + h) mod P"
proof -
  have "(x mod P - y mod P + h) mod P = ((x mod P - y mod P) mod P + h) mod P"
    by (simp only: mod_add_left_eq)
  also have "\<dots> = ((x - y) mod P + h) mod P" by (simp only: mod_diff_eq)
  also have "\<dots> = (x - y + h) mod P" by (simp only: mod_add_left_eq)
  finally show ?thesis .
qed

lemma wrap_grid52:
  assumes lo: "- (2 ^ 52) < c" and hi: "c < 2 * 2 ^ 52"
  shows "float_mod1 (of_int c / 2 ^ 52) = of_int (c mod 2 ^ 52) / 2 ^ 52"
proof -
  let ?x = "real_of_int c / 2 ^ 52"
  consider "c < 0" | "0 \<le> c" "c < 2 ^ 52" | "2 ^ 52 \<le> c" by linarith
  then show ?thesis
  proof cases
    case 1
    have m: "c mod 2 ^ 52 = c + 2 ^ 52" using lo 1 by (intro mod_wrap_up) simp_all
    have neg: "?x < 0" using 1 by (simp add: divide_neg_pos)
    have "real_of_int (- (2 ^ 52)) < of_int c" using lo by (simp only: of_int_less_iff)
    then have gt: "- 1 < ?x" by (simp add: pos_less_divide_eq)
    have "\<bar>c + 2 ^ 52\<bar> < 2 ^ 53" using 1 lo by simp
    then have "rne (of_int (c + 2 ^ 52) / 2 ^ 52) = of_int (c + 2 ^ 52) / 2 ^ 52"
      by (rule rne_grid52)
    moreover have "?x + 1 = of_int (c + 2 ^ 52) / 2 ^ 52" by (simp add: field_simps)
    ultimately have "float_add ?x 1 = of_int (c + 2 ^ 52) / 2 ^ 52"
      by (simp only: float_add_def)
    then show ?thesis by (simp only: float_mod1_below [OF gt neg] m)
  next
    case 2
    have m: "c mod 2 ^ 52 = c" using 2 by (intro mod_pos_pos_trivial)
    have ge: "0 \<le> ?x" using 2 by simp
    have "real_of_int c < of_int (2 ^ 52)" using 2 by (simp only: of_int_less_iff)
    then have lt: "?x < 1" by (simp add: pos_divide_less_eq)
    show ?thesis by (simp only: float_mod1_unit [OF ge lt] m)
  next
    case 3
    have m: "c mod 2 ^ 52 = c - 2 ^ 52" using 3 hi by (intro mod_wrap_down) simp_all
    have "real_of_int (2 ^ 52) \<le> of_int c" using 3 by (simp only: of_int_le_iff)
    then have ge: "1 \<le> ?x" by (simp add: pos_le_divide_eq)
    have "real_of_int c < of_int (2 * 2 ^ 52)" using hi by (simp only: of_int_less_iff)
    then have lt: "?x < 2" by (simp add: pos_divide_less_eq)
    have "?x - 1 = of_int (c - 2 ^ 52) / 2 ^ 52" by (simp add: field_simps)
    then show ?thesis by (simp only: float_mod1_above [OF ge lt] m)
  qed
qed

lemma shift_grid52:
  assumes a: "0 \<le> a" "a < 2 ^ 52" and k: "0 \<le> k" "k < 2 ^ 52"
  shows "shift (of_int k / 2 ^ 52) (of_int a / 2 ^ 52) = of_int ((a + k) mod 2 ^ 52) / 2 ^ 52"
proof -
  have "\<bar>a + k\<bar> < 2 ^ 53" using a k by simp
  then have "rne (of_int (a + k) / 2 ^ 52) = of_int (a + k) / 2 ^ 52" by (rule rne_grid52)
  moreover have "real_of_int a / 2 ^ 52 + of_int k / 2 ^ 52 = of_int (a + k) / 2 ^ 52"
    by (simp add: add_divide_distrib)
  ultimately have "float_add (of_int a / 2 ^ 52) (of_int k / 2 ^ 52) = of_int (a + k) / 2 ^ 52"
    by (simp only: float_add_def)
  moreover have "float_mod1 (of_int (a + k) / 2 ^ 52) = of_int ((a + k) mod 2 ^ 52) / 2 ^ 52"
    using a k by (intro wrap_grid52) simp_all
  ultimately show ?thesis by (simp only: shift_def)
qed

lemma rotate_grid52:
  assumes a: "0 \<le> a" "a < 2 ^ 52" and b: "0 \<le> b" "b < 2 ^ 52"
  shows "rotate (of_int b / 2 ^ 52) (of_int a / 2 ^ 52) =
           of_int ((a - b + 2 ^ 51) mod 2 ^ 52) / 2 ^ 52"
proof -
  have "\<bar>2 ^ 51 - b\<bar> < 2 ^ 53" using b by simp
  then have "rne (of_int (2 ^ 51 - b) / 2 ^ 52) = of_int (2 ^ 51 - b) / 2 ^ 52"
    by (rule rne_grid52)
  moreover have "(1::real) / 2 - of_int b / 2 ^ 52 = of_int (2 ^ 51 - b) / 2 ^ 52"
    by (simp add: field_simps)
  ultimately have delta: "float_sub (1 / 2) (of_int b / 2 ^ 52) = of_int (2 ^ 51 - b) / 2 ^ 52"
    by (simp only: float_sub_def)
  have "\<bar>a - b + 2 ^ 51\<bar> < 2 ^ 53" using a b by simp
  then have "rne (of_int (a - b + 2 ^ 51) / 2 ^ 52) = of_int (a - b + 2 ^ 51) / 2 ^ 52"
    by (rule rne_grid52)
  moreover have "real_of_int a / 2 ^ 52 + of_int (2 ^ 51 - b) / 2 ^ 52 =
                 of_int (a - b + 2 ^ 51) / 2 ^ 52"
    by (simp add: field_simps)
  ultimately have "float_add (of_int a / 2 ^ 52) (of_int (2 ^ 51 - b) / 2 ^ 52) =
                   of_int (a - b + 2 ^ 51) / 2 ^ 52"
    by (simp only: float_add_def)
  moreover have "float_mod1 (of_int (a - b + 2 ^ 51) / 2 ^ 52) =
                 of_int ((a - b + 2 ^ 51) mod 2 ^ 52) / 2 ^ 52"
    using a b by (intro wrap_grid52) simp_all
  ultimately show ?thesis by (simp only: rotate_def delta)
qed

lemma rotate_shift:
  assumes "coarse_value c" and "coarse_value d0" and "coarse_value d"
  shows "rotate (shift c d0) (shift c d) = rotate d0 d"
proof -
  from assms(1) obtain k where k: "0 \<le> k" "k < 2 ^ 52" and c: "c = of_int k / 2 ^ 52"
    by (rule coarse_valueE)
  from assms(2) obtain b where b: "0 \<le> b" "b < 2 ^ 52" and d0: "d0 = of_int b / 2 ^ 52"
    by (rule coarse_valueE)
  from assms(3) obtain a where a: "0 \<le> a" "a < 2 ^ 52" and d: "d = of_int a / 2 ^ 52"
    by (rule coarse_valueE)
  define a' where "a' = (a + k) mod 2 ^ 52"
  define b' where "b' = (b + k) mod 2 ^ 52"
  have a': "0 \<le> a'" "a' < 2 ^ 52" and b': "0 \<le> b'" "b' < 2 ^ 52"
    by (simp_all add: a'_def b'_def)
  have "(a' - b' + 2 ^ 51) mod 2 ^ 52 = (a + k - (b + k) + 2 ^ 51) mod 2 ^ 52"
    unfolding a'_def b'_def by (rule mod_diff_add)
  then have m: "(a' - b' + 2 ^ 51) mod 2 ^ 52 = (a - b + 2 ^ 51) mod 2 ^ 52" by simp
  have "rotate (shift c d0) (shift c d) = rotate (of_int b' / 2 ^ 52) (of_int a' / 2 ^ 52)"
    by (simp only: c d0 d shift_grid52 [OF a k] shift_grid52 [OF b k] a'_def b'_def)
  also have "\<dots> = of_int ((a - b + 2 ^ 51) mod 2 ^ 52) / 2 ^ 52"
    by (simp only: rotate_grid52 [OF a' b'] m)
  also have "\<dots> = rotate d0 d" by (simp only: d0 d rotate_grid52 [OF a b])
  finally show ?thesis .
qed

lemma frac_shift_int:
  assumes "0 \<le> y" and "y < 1"
  shows "frac (y + of_int k) = y"
  using assms by (simp add: frac_unique_iff)

text \<open>
  The sample element of a draw is a value of the grid again, and at most \<open>2\<^sup>-\<^sup>5\<^sup>3\<close> from
  the exact position \<open>(d - d0 + 0.5) mod 1\<close> of the draw on the circle.
\<close>

lemma rotate_pos:
  assumes "random_value d0" and "random_value d"
  shows "random_value (rotate d0 d)"
    and "\<bar>rotate d0 d - frac (d - d0 + 1 / 2)\<bar> \<le> 1 / 2 ^ 53"
proof -
  from assms(1) obtain b where b: "0 \<le> b" "b < 2 ^ 53" and d0: "d0 = of_int b / 2 ^ 53"
    by (rule random_valueE)
  from assms(2) obtain a where a: "0 \<le> a" "a < 2 ^ 53" and d: "d = of_int a / 2 ^ 53"
    by (rule random_valueE)
  define c where "c = a + 2 ^ 52 - b"
  define x where "x = real_of_int c / 2 ^ 53"
  have x: "d - d0 + 1 / 2 = x" by (simp add: d d0 c_def x_def field_simps)
  have lo: "- (2 ^ 52) < c" and hi: "c < 3 * 2 ^ 52" using a b by (simp_all add: c_def)
  note rot = rotate_grid53 [OF a b, folded c_def d0 d, folded x_def]
  have both: "random_value (rotate d0 d) \<and> \<bar>rotate d0 d - frac x\<bar> \<le> 1 / 2 ^ 53"
  proof -
    consider "c < 0" | "0 \<le> c" "c < 2 ^ 53" | "2 ^ 53 \<le> c" by linarith
    then show ?thesis
    proof cases
      case 1
      have r: "rotate d0 d = of_int (c + 2 ^ 53) / 2 ^ 53" using 1 by (simp only: rot if_True)
      have rv: "random_value (of_int (c + 2 ^ 53) / 2 ^ 53)"
        using 1 lo by (intro random_valueI) simp_all
      have xx: "x = of_int (c + 2 ^ 53) / 2 ^ 53 + of_int (- 1)"
        by (simp add: x_def add_divide_distrib)
      have "frac x = of_int (c + 2 ^ 53) / 2 ^ 53"
        using rv by (subst xx, intro frac_shift_int) (simp_all add: random_value_def)
      then show ?thesis using rv by (simp only: r) simp
    next
      case 2
      have ne: "\<not> c < 0" using 2 by simp
      have r: "rotate d0 d = x" using 2 ne by (simp only: rot if_True if_False)
      have rv: "random_value x" unfolding x_def using 2 by (intro random_valueI)
      then have "frac (x + of_int 0) = x" by (intro frac_shift_int) (simp_all add: random_value_def)
      then show ?thesis using rv by (simp add: r)
    next
      case 3
      have ne: "\<not> c < 0" "\<not> c < 2 ^ 53" using 3 by simp_all
      have r: "rotate d0 d = rne x - 1" using ne by (simp only: rot if_False)
      have "real_of_int (2 ^ 53) \<le> of_int c" using 3 by (simp only: of_int_le_iff)
      then have ge: "1 \<le> x" by (simp add: x_def pos_le_divide_eq)
      have "c \<le> 3 * 2 ^ 52" using hi by simp
      then have "real_of_int c \<le> of_int (3 * 2 ^ 52)" by (simp only: of_int_le_iff)
      then have le: "x \<le> 3 / 2" by (simp add: x_def pos_divide_le_eq)
      then have lt: "x < 2" by simp
      have "rne x \<le> 3 / 2" using ge le by (rule rne_one_to_three_halves)
      then have r2: "rne x < 2" by simp
      have "0 \<le> x - 1" and "x - 1 < 1" using ge lt by simp_all
      then have "frac (x - 1 + of_int 1) = x - 1" by (rule frac_shift_int)
      then have "frac x = x - 1" by simp
      then show ?thesis using wrap_above(2,3) [OF ge lt r2] by (simp only: r)
    qed
  qed
  show "random_value (rotate d0 d)" using both by simp
  show "\<bar>rotate d0 d - frac (d - d0 + 1 / 2)\<bar> \<le> 1 / 2 ^ 53" using both by (simp only: x)
qed

text \<open>The same for a draw moved by an offset of the grid.\<close>

lemma shift_pos:
  assumes "random_value c" and "random_value v"
  shows "random_value (shift c v)"
    and "\<bar>shift c v - frac (v + c)\<bar> \<le> 1 / 2 ^ 53"
proof -
  from assms(1) obtain k where k: "0 \<le> k" "k < 2 ^ 53" and c: "c = of_int k / 2 ^ 53"
    by (rule random_valueE)
  from assms(2) obtain a where a: "0 \<le> a" "a < 2 ^ 53" and v: "v = of_int a / 2 ^ 53"
    by (rule random_valueE)
  define x where "x = real_of_int (a + k) / 2 ^ 53"
  have x: "v + c = x" by (simp add: v c x_def add_divide_distrib)
  have sh: "shift c v = float_mod1 (rne x)" by (simp only: shift_def float_add_def x)
  have both: "random_value (shift c v) \<and> \<bar>shift c v - frac x\<bar> \<le> 1 / 2 ^ 53"
  proof (cases "a + k < 2 ^ 53")
    case True
    have rv: "random_value x" unfolding x_def using True a k by (intro random_valueI) simp_all
    then have "0 \<le> x" and "x < 1" by (simp_all add: random_value_def)
    then have "float_mod1 x = x" and "frac (x + of_int 0) = x"
      by (rule float_mod1_unit, rule frac_shift_int)
    then show ?thesis using rv by (simp add: sh rne_random_value [OF rv])
  next
    case False
    then have "2 ^ 53 \<le> a + k" by simp
    then have "real_of_int (2 ^ 53) \<le> of_int (a + k)" by (simp only: of_int_le_iff)
    then have ge: "1 \<le> x" by (simp add: x_def pos_le_divide_eq)
    have "a + k \<le> 2 * (2 ^ 53 - 1)" using a k by simp
    then have "real_of_int (a + k) \<le> of_int (2 * (2 ^ 53 - 1))" by (simp only: of_int_le_iff)
    then have le: "x \<le> of_int (2 ^ 53 - 1) * 2 powi (- int 52)"
      by (simp add: x_def powi_neg pos_divide_le_eq)
    have top: "real_of_int (2 ^ 53 - 1) * 2 powi (- int 52) < 2" by (simp add: powi_neg)
    then have lt: "x < 2" using le by linarith
    have "quantum x \<le> - int 52" using ge lt by (intro quantum_le) simp_all
    with le have "rne x \<le> of_int (2 ^ 53 - 1) * 2 powi (- int 52)" by (rule rne_le)
    then have r2: "rne x < 2" using top by linarith
    have "0 \<le> x - 1" and "x - 1 < 1" using ge lt by simp_all
    then have "frac (x - 1 + of_int 1) = x - 1" by (rule frac_shift_int)
    then have "frac x = x - 1" by simp
    then show ?thesis using wrap_above [OF ge lt r2] by (simp only: sh)
  qed
  show "random_value (shift c v)" using both by simp
  show "\<bar>shift c v - frac (v + c)\<bar> \<le> 1 / 2 ^ 53" using both by (simp only: x)
qed

text \<open>
  Moving both draws by \<open>c\<close> moves the sample element by the two rounding errors of the
  moves, up to the roundings of the two rotations, as long as the element is not next to
  the cut at \<open>0\<close> and \<open>1\<close>.
\<close>

lemma rotate_shift_near:
  assumes "random_value c" and "random_value d0" and "random_value d"
    and lo: "3 / 2 ^ 53 \<le> rotate d0 d" and hi: "rotate d0 d \<le> 1 - 4 / 2 ^ 53"
  shows "\<bar>rotate (shift c d0) (shift c d) - rotate d0 d
          - ((shift c d - frac (d + c)) - (shift c d0 - frac (d0 + c)))\<bar> \<le> 2 / 2 ^ 53"
proof -
  define u :: real where "u = 1 / 2 ^ 53"
  define P where "P = frac (d - d0 + 1 / 2)"
  define e where "e = shift c d - frac (d + c)"
  define e0 where "e0 = shift c d0 - frac (d0 + c)"
  define k where "k = \<lfloor>d - d0 + 1 / 2\<rfloor> - \<lfloor>d + c\<rfloor> + \<lfloor>d0 + c\<rfloor>"
  have u: "0 < u" "8 * u < 1" by (simp_all add: u_def)
  have D: "\<bar>rotate d0 d - P\<bar> \<le> u"
    unfolding P_def u_def using assms(2,3) by (rule rotate_pos)
  have e: "\<bar>e\<bar> \<le> u"
    unfolding e_def u_def using assms(1,3) by (rule shift_pos)
  have e0: "\<bar>e0\<bar> \<le> u"
    unfolding e0_def u_def using assms(1,2) by (rule shift_pos)
  have w: "random_value (shift c d0)" "random_value (shift c d)"
    using assms(1-3) by (simp_all add: shift_pos)
  have D': "\<bar>rotate (shift c d0) (shift c d) - frac (shift c d - shift c d0 + 1 / 2)\<bar> \<le> u"
    unfolding u_def using w by (rule rotate_pos)
  have lo': "3 * u \<le> rotate d0 d" and hi': "rotate d0 d \<le> 1 - 4 * u"
    using lo hi by (simp_all add: u_def)
  have "0 \<le> P + e - e0" and "P + e - e0 < 1" using D e e0 lo' hi' u by linarith+
  then have "frac (P + e - e0 + of_int k) = P + e - e0" by (rule frac_shift_int)
  moreover have "shift c d - shift c d0 + 1 / 2 = P + e - e0 + of_int k"
    by (simp add: P_def e_def e0_def k_def frac_def)
  ultimately have "frac (shift c d - shift c d0 + 1 / 2) = P + e - e0" by simp
  then have "\<bar>rotate (shift c d0) (shift c d) - rotate d0 d - (e - e0)\<bar> \<le> 2 * u"
    using D D' by linarith
  then show ?thesis by (simp add: e_def e0_def u_def)
qed

lemma sorted_hd_le: "sorted xs \<Longrightarrow> x \<in> set xs \<Longrightarrow> hd xs \<le> x"
  by (cases xs) auto

lemma sorted_le_last: "sorted xs \<Longrightarrow> x \<in> set xs \<Longrightarrow> x \<le> last xs"
  by (induction xs) auto

text \<open>
  On draws of the grid the distance is the exact difference of the largest and the
  smallest sample element, so a trial is a hit exactly if no two sample elements are more
  than \<open>0.5\<close> apart.
\<close>

lemma outcome_iff:
  assumes "1 \<le> duck_count" and "\<forall>i<nat duck_count. random_value (g i)"
  shows "outcome duck_count g =
           Inr (\<forall>i<nat duck_count. \<forall>j<nat duck_count.
                  rotate (g 0) (g i) - rotate (g 0) (g j) \<le> 1 / 2)"
proof -
  define n where "n = nat duck_count"
  define f where "f = (\<lambda>i. rotate (g 0) (g i))"
  define xs where "xs = sample n g 0"
  have n: "0 < n" using assms(1) by (simp add: n_def)
  have xs: "xs = sort (map f [0..<n])" by (simp add: xs_def sample_def f_def)
  have set: "set xs = f ` {0..<n}" by (simp add: xs)
  have "length xs = n" by (simp add: xs)
  then have ne: "xs \<noteq> []" using n by (cases xs) simp_all
  have sorted: "sorted xs" by (simp add: xs)
  have g0: "random_value (g 0)" using assms(2) n by (simp add: n_def)
  have rv: "random_value x" if "x \<in> set xs" for x
  proof -
    from that obtain i where "i < n" and "x = f i" by (auto simp: set)
    then show ?thesis using rotate_pos(1) [OF g0, of "g i"] assms(2) by (simp add: f_def n_def)
  qed
  have "hd xs \<in> set xs" and "last xs \<in> set xs" using ne by simp_all
  moreover from this have "hd xs \<le> last xs" using sorted by (intro sorted_hd_le)
  ultimately have "random_value (last xs - hd xs)" using rv by (intro random_value_diff)
  then have span: "span xs = last xs - hd xs" by (simp add: span_def float_sub_def rne_random_value)
  have "last xs - hd xs \<le> 1 / 2 \<longleftrightarrow> (\<forall>i<n. \<forall>j<n. f i - f j \<le> 1 / 2)"
  proof
    assume a: "last xs - hd xs \<le> 1 / 2"
    show "\<forall>i<n. \<forall>j<n. f i - f j \<le> 1 / 2"
    proof (intro allI impI)
      fix i j assume "i < n" and "j < n"
      then have "f i \<in> set xs" and "f j \<in> set xs" by (simp_all add: set)
      then have "f i \<le> last xs" and "hd xs \<le> f j"
        using sorted by (simp_all add: sorted_le_last sorted_hd_le)
      then show "f i - f j \<le> 1 / 2" using a by linarith
    qed
  next
    assume a: "\<forall>i<n. \<forall>j<n. f i - f j \<le> 1 / 2"
    from \<open>last xs \<in> set xs\<close> obtain i where "i < n" and "last xs = f i" by (auto simp: set)
    moreover from \<open>hd xs \<in> set xs\<close> obtain j where "j < n" and "hd xs = f j" by (auto simp: set)
    ultimately show "last xs - hd xs \<le> 1 / 2" using a by simp
  qed
  then show ?thesis
    using outcome_ok [OF assms(1), of g] by (simp add: span xs_def [symmetric] n_def [symmetric] f_def)
qed

lemma shift_random_values:
  assumes "random_value c" and "\<forall>i<n. random_value (g i)"
  shows "\<forall>i<n. random_value (shift c (g i))"
  using assms by (simp add: shift_pos)

lemma outcome_one: "outcome 1 g = Inr True"
proof -
  have "sample (nat 1) g 0 = [rotate (g 0) (g 0)]" by (simp add: sample_def)
  then show ?thesis using outcome_ok [of 1 g] by (simp add: span_def float_sub_self)
qed

lemma outcome_two:
  assumes "random_value (g 0)" and "random_value (g 1)"
  shows "outcome 2 g = Inr True"
proof -
  define f where "f = (\<lambda>i. rotate (g 0) (g i))"
  have f0: "f 0 = 1 / 2" unfolding f_def using assms(1) by (rule rotate_anchor)
  have f1: "0 \<le> f 1 \<and> f 1 < 1" unfolding f_def using assms by (rule rotate_range)
  have rv: "\<forall>i<nat 2. random_value (g i)" using assms by (auto simp: less_2_cases_iff)
  have "f i - f j \<le> 1 / 2" if "i < 2" and "j < 2" for i j
  proof -
    from that have "(i = 0 \<or> i = 1) \<and> (j = 0 \<or> j = 1)" by auto
    then show ?thesis using f0 f1 by auto
  qed
  then show ?thesis using outcome_iff [of 2 g, OF _ rv] by (simp add: f_def)
qed

lemma float_sub_half:
  assumes "random_value x"
  shows "float_sub (1 / 2) x = 1 / 2 - x"
proof -
  from assms obtain b where b: "0 \<le> b" "b < 2 ^ 53" and x: "x = of_int b / 2 ^ 53"
    by (rule random_valueE)
  have "real_of_int (2 ^ 52 - b) / 2 ^ 53 = 1 / 2 - of_int b / 2 ^ 53"
    by (simp add: diff_divide_distrib)
  then show ?thesis by (simp only: x rotation_delta_exact [OF b])
qed

lemma shift_nowrap:
  assumes "random_value c" and "random_value v" and "v + c < 1"
  shows "shift c v = v + c" and "random_value (v + c)"
proof -
  from assms(1) obtain k where k: "0 \<le> k" "k < 2 ^ 53" and c: "c = of_int k / 2 ^ 53"
    by (rule random_valueE)
  from assms(2) obtain a where a: "0 \<le> a" "a < 2 ^ 53" and v: "v = of_int a / 2 ^ 53"
    by (rule random_valueE)
  have s: "v + c = of_int (a + k) / 2 ^ 53" by (simp add: v c add_divide_distrib)
  have "real_of_int (a + k) < of_int (2 ^ 53)" using assms(3) by (simp add: s pos_divide_less_eq)
  then have "a + k < 2 ^ 53" by (simp only: of_int_less_iff)
  then have "random_value (of_int (a + k) / 2 ^ 53)" using a k by (intro random_valueI) simp_all
  then show rv: "random_value (v + c)" by (simp only: s)
  then have "0 \<le> v + c" by (simp add: random_value_def)
  then have "float_mod1 (v + c) = v + c" using assms(3) by (rule float_mod1_unit)
  then show "shift c v = v + c" by (simp add: shift_def float_add_def rne_random_value [OF rv])
qed

lemma rotate_shift_nowrap:
  assumes "random_value c" and "random_value d0" and "random_value d"
    and "d0 + c < 1" and "d + c < 1"
  shows "rotate (shift c d0) (shift c d) = rotate d0 d"
proof -
  note s0 = shift_nowrap [OF assms(1,2,4)] and s = shift_nowrap [OF assms(1,3,5)]
  have "d + c + (1 / 2 - (d0 + c)) = d + (1 / 2 - d0)" by simp
  then show ?thesis
    by (simp only: rotate_def s0(1) s(1) float_sub_half [OF s0(2)] float_sub_half [OF assms(2)]
        float_add_def)
qed

lemma set_sample: "set (sample n g 0) = (\<lambda>i. rotate (g 0) (g i)) ` {0..<n}"
  by (simp add: sample_def)

text \<open>
  A hit with \<open>2\<^sup>-\<^sup>5\<^sup>0\<close> to spare stays a hit when the draws are moved, and so does a
  miss made by two sample elements that are \<open>2\<^sup>-\<^sup>5\<^sup>0\<close> from the cut.
\<close>

lemma robust_hit:
  assumes n: "1 \<le> duck_count" and c: "random_value c"
    and g: "\<forall>i<nat duck_count. random_value (g i)"
    and far: "\<forall>i<nat duck_count. \<forall>j<nat duck_count.
                rotate (g 0) (g i) - rotate (g 0) (g j) \<le> 1 / 2 - 1 / 2 ^ 50"
  shows "outcome duck_count (\<lambda>i. shift c (g i)) = Inr True" and "outcome duck_count g = Inr True"
proof -
  define u :: real where "u = 1 / 2 ^ 53"
  define f where "f = (\<lambda>i. rotate (g 0) (g i))"
  define f' where "f' = (\<lambda>i. rotate (shift c (g 0)) (shift c (g i)))"
  define e where "e = (\<lambda>i. shift c (g i) - frac (g i + c))"
  have u: "0 < u" by (simp add: u_def)
  have m: "(1::real) / 2 ^ 50 = 8 * u" by (simp add: u_def)
  have far': "f i - f j \<le> 1 / 2 - 8 * u" if "i < nat duck_count" "j < nat duck_count" for i j
    using far that unfolding f_def m by blast
  have zero: "0 < nat duck_count" using n by simp
  have g0: "random_value (g 0)" using g zero by simp
  have f0: "f 0 = 1 / 2" unfolding f_def using g0 by (rule rotate_anchor)
  have near: "\<bar>f' i - f i - (e i - e 0)\<bar> \<le> 2 * u" and err: "\<bar>e i\<bar> \<le> u"
    if "i < nat duck_count" for i
  proof -
    have gi: "random_value (g i)" using g that by simp
    have "3 / 2 ^ 53 \<le> f i" and "f i \<le> 1 - 4 / 2 ^ 53"
      using far' [OF that zero] far' [OF zero that] f0 u by (simp_all add: u_def)
    then have "\<bar>f' i - f i - (e i - e 0)\<bar> \<le> 2 / 2 ^ 53"
      unfolding f_def f'_def e_def by (intro rotate_shift_near c g0 gi)
    then show "\<bar>f' i - f i - (e i - e 0)\<bar> \<le> 2 * u" by (simp add: u_def)
    show "\<bar>e i\<bar> \<le> u" unfolding e_def u_def using c gi by (rule shift_pos)
  qed
  have "f' i - f' j \<le> 1 / 2" if "i < nat duck_count" "j < nat duck_count" for i j
    using near [OF that(1)] near [OF that(2)] err [OF that(1)] err [OF that(2)] far' [OF that] u
    by linarith
  moreover have "\<forall>i<nat duck_count. random_value (shift c (g i))"
    using c g by (rule shift_random_values)
  ultimately show "outcome duck_count (\<lambda>i. shift c (g i)) = Inr True"
    using outcome_iff [OF n, of "\<lambda>i. shift c (g i)"] by (simp add: f'_def)
  have "f i - f j \<le> 1 / 2" if "i < nat duck_count" "j < nat duck_count" for i j
    using far' [OF that] u by linarith
  then show "outcome duck_count g = Inr True"
    using outcome_iff [OF n g] by (simp add: f_def)
qed

lemma robust_miss:
  assumes n: "1 \<le> duck_count" and c: "random_value c"
    and g: "\<forall>i<nat duck_count. random_value (g i)"
    and i: "i < nat duck_count" and j: "j < nat duck_count"
    and lo: "1 / 2 ^ 50 \<le> rotate (g 0) (g j)" and hi: "rotate (g 0) (g i) \<le> 1 - 1 / 2 ^ 50"
    and far: "1 / 2 + 1 / 2 ^ 50 \<le> rotate (g 0) (g i) - rotate (g 0) (g j)"
  shows "outcome duck_count (\<lambda>i. shift c (g i)) = Inr False" and "outcome duck_count g = Inr False"
proof -
  define u :: real where "u = 1 / 2 ^ 53"
  define f where "f = (\<lambda>i. rotate (g 0) (g i))"
  define f' where "f' = (\<lambda>i. rotate (shift c (g 0)) (shift c (g i)))"
  define e where "e = (\<lambda>i. shift c (g i) - frac (g i + c))"
  have u: "0 < u" "16 * u < 1" by (simp_all add: u_def)
  have m: "(1::real) / 2 ^ 50 = 8 * u" by (simp add: u_def)
  have lo': "8 * u \<le> f j" and hi': "f i \<le> 1 - 8 * u" and far': "1 / 2 + 8 * u \<le> f i - f j"
    using lo hi far by (simp_all only: f_def m)
  have zero: "0 < nat duck_count" using n by simp
  have g0: "random_value (g 0)" using g zero by simp
  have near: "\<bar>f' k - f k - (e k - e 0)\<bar> \<le> 2 * u" and err: "\<bar>e k\<bar> \<le> u"
    if "k < nat duck_count" and "8 * u \<le> f k" and "f k \<le> 1 - 8 * u" for k
  proof -
    have gk: "random_value (g k)" using g that by simp
    have "3 / 2 ^ 53 \<le> f k" and "f k \<le> 1 - 4 / 2 ^ 53" using that u by (simp_all add: u_def)
    then have "\<bar>f' k - f k - (e k - e 0)\<bar> \<le> 2 / 2 ^ 53"
      unfolding f_def f'_def e_def by (intro rotate_shift_near c g0 gk)
    then show "\<bar>f' k - f k - (e k - e 0)\<bar> \<le> 2 * u" by (simp add: u_def)
    show "\<bar>e k\<bar> \<le> u" unfolding e_def u_def using c gk by (rule shift_pos)
  qed
  have fi: "8 * u \<le> f i" and fj: "f j \<le> 1 - 8 * u" using lo' hi' far' u by linarith+
  have "1 / 2 < f' i - f' j"
    using near [OF i fi hi'] near [OF j lo' fj] err [OF i fi hi'] err [OF j lo' fj] far' u
    by linarith
  then have "\<not> (\<forall>i<nat duck_count. \<forall>j<nat duck_count. f' i - f' j \<le> 1 / 2)"
    using i j by (auto simp: not_le)
  moreover have "\<forall>i<nat duck_count. random_value (shift c (g i))"
    using c g by (rule shift_random_values)
  ultimately show "outcome duck_count (\<lambda>i. shift c (g i)) = Inr False"
    using outcome_iff [OF n, of "\<lambda>i. shift c (g i)"] by (simp add: f'_def)
  have "1 / 2 < f i - f j" using far' u by linarith
  then have "\<not> (\<forall>i<nat duck_count. \<forall>j<nat duck_count. f i - f j \<le> 1 / 2)"
    using i j by (auto simp: not_le)
  then show "outcome duck_count g = Inr False"
    using outcome_iff [OF n g] by (simp add: f_def)
qed

lemma pair_le_span:
  assumes "1 \<le> duck_count" and "\<forall>i<nat duck_count. random_value (g i)"
    and "i < nat duck_count" and "j < nat duck_count"
  shows "rotate (g 0) (g i) - rotate (g 0) (g j) \<le> span (sample (nat duck_count) g 0)"
proof -
  define xs where "xs = sample (nat duck_count) g 0"
  have set: "set xs = (\<lambda>i. rotate (g 0) (g i)) ` {0..<nat duck_count}"
    unfolding xs_def by (rule set_sample)
  have sorted: "sorted xs" by (simp add: xs_def sample_def)
  have "length xs = nat duck_count" by (simp add: xs_def sample_def)
  then have ne: "xs \<noteq> []" using assms(1) by (cases xs) simp_all
  have g0: "random_value (g 0)" using assms(1,2) by simp
  have rv: "random_value x" if "x \<in> set xs" for x
  proof -
    from that obtain i where "i < nat duck_count" and "x = rotate (g 0) (g i)" by (auto simp: set)
    then show ?thesis using rotate_pos(1) [OF g0, of "g i"] assms(2) by simp
  qed
  have "hd xs \<in> set xs" and "last xs \<in> set xs" using ne by simp_all
  moreover from this have "hd xs \<le> last xs" using sorted by (intro sorted_hd_le)
  ultimately have "random_value (last xs - hd xs)" using rv by (intro random_value_diff)
  then have span: "span xs = last xs - hd xs" by (simp add: span_def float_sub_def rne_random_value)
  have "rotate (g 0) (g i) \<in> set xs" and "rotate (g 0) (g j) \<in> set xs"
    using assms(3,4) by (simp_all add: set)
  then have "rotate (g 0) (g i) \<le> last xs" and "hd xs \<le> rotate (g 0) (g j)"
    using sorted by (simp_all add: sorted_le_last sorted_hd_le)
  then show ?thesis unfolding xs_def [symmetric] span by linarith
qed

lemma all_below_three: "P 0 \<Longrightarrow> P 1 \<Longrightarrow> P 2 \<Longrightarrow> \<forall>i<nat 3. P i"
proof (intro allI impI)
  fix i :: nat
  assume "P 0" and "P 1" and "P 2" and "i < nat 3"
  from this(4) have "i = 0 \<or> i = 1 \<or> i = 2" by auto
  then show "P i" using \<open>P 0\<close> \<open>P 1\<close> \<open>P 2\<close> by blast
qed

lemma all_below_two: "P 0 \<Longrightarrow> P 1 \<Longrightarrow> \<forall>i<nat 2. P i"
proof (intro allI impI)
  fix i :: nat
  assume "P 0" and "P 1" and "i < nat 2"
  from this(3) have "i = 0 \<or> i = 1" by auto
  then show "P i" using \<open>P 0\<close> \<open>P 1\<close> by blast
qed

section \<open>The claims\<close>

text \<open>
  C1, as the code has it. For a duck count \<open>n\<close> and an iteration count \<open>k\<close> of at
  least one, \<open>test\<close> returns the triple of the empty list \<open>distances\<close>, the
  hit count and the float quotient of the hit count by \<open>k\<close>, where the hit count is
  the number of the \<open>k\<close> trials whose sample span is at most \<open>0.5\<close>; it leaves
  the random source \<open>k * n\<close> draws further.
\<close>

theorem test_returns_hits:
  assumes "1 \<le> duck_count" and "1 \<le> iterations"
  shows "test iterations duck_count g =
           Inr (([], int (hit_count (nat duck_count) (nat iterations) g),
                 rne (of_nat (hit_count (nat duck_count) (nat iterations) g) / of_int iterations)),
                \<lambda>j. g (j + nat iterations * nat duck_count))"
  using assms by (rule test_ok)

theorem test_returns_hits_witness:
  "(1::int) \<le> 3 \<and> (1::int) \<le> 2
   \<and> map_sum id fst (test 2 3 (stream_of [1 / 2, 3 / 4, 1 / 8, 1 / 2, 5 / 8, 3 / 4])) =
       Inr ([], 1, 1 / 2)"
proof -
  let ?s = "stream_of [1 / 2, 3 / 4, 1 / 8, 1 / 2, 5 / 8, 3 / 4]"
  have r: "random_value (1 / 2)" "random_value (3 / 4)" "random_value (1 / 8)"
    "random_value (5 / 8)" "random_value (1 / 4)"
    by (simp_all add: random_value_def)
  have s: "sample 3 ?s 0 = [1 / 8, 1 / 2, 3 / 4]" "sample 3 ?s (Suc 0) = [1 / 2, 5 / 8, 3 / 4]"
    by (simp_all add: sample_def stream_of_def rotate_half r upt_numerals)
  have "span [1 / 8, 1 / 2, 3 / 4] = 5 / 8" "span [1 / 2, 5 / 8, 3 / 4] = 1 / 4"
    using rne_random_value [OF r(4)] rne_random_value [OF r(5)]
    by (simp_all add: span_def float_sub_def)
  then have h: "hit_count 3 2 ?s = 1" by (simp add: hit_count_def s upt_numerals)
  show ?thesis
    using test_returns_hits [of 3 2 ?s] rne_random_value [OF r(1)] by (simp add: h)
qed

text \<open>
  C1, as the specification has it, fails: with three ducks, one iteration and the draws
  \<open>0.5, 0.75, 0.125\<close> the trial is a miss, and \<open>test\<close> returns
  \<open>([], 0, 0.0)\<close>. The first component is the empty list and not the hit count, the
  second is the hit count \<open>0\<close> and not the iteration count \<open>1\<close>.
\<close>

theorem test_triple_counterexample:
  "map_sum id fst (test 1 3 (stream_of [1 / 2, 3 / 4, 1 / 8])) = Inr ([], 0, 0)
   \<and> fst (snd (fst (projr (test 1 3 (stream_of [1 / 2, 3 / 4, 1 / 8]))))) \<noteq> 1"
proof -
  let ?s = "stream_of [1 / 2, 3 / 4, 1 / 8]"
  have r: "random_value (1 / 2)" "random_value (3 / 4)" "random_value (1 / 8)"
    "random_value (5 / 8)"
    by (simp_all add: random_value_def)
  have s: "sample 3 ?s 0 = [1 / 8, 1 / 2, 3 / 4]"
    by (simp add: sample_def stream_of_def rotate_half r upt_numerals)
  have "span [1 / 8, 1 / 2, 3 / 4] = 5 / 8"
    using rne_random_value [OF r(4)] by (simp add: span_def float_sub_def)
  then have h: "hit_count 3 (Suc 0) ?s = 0" by (simp add: hit_count_def s)
  show ?thesis using test_ok [of 3 1 ?s] by (simp add: h rne_def)
qed

text \<open>
  C2, as the code has it. \<open>test\<close> validates nothing. With a duck count of zero or
  less and at least one iteration it fails with the \<open>IndexError\<close> of
  \<open>generate_ducks\<close> in the first trial; with zero iterations it fails with the
  \<open>ZeroDivisionError\<close> of \<open>hits / iterations\<close>; with a negative iteration count
  it raises nothing and returns the empty list, no hit and a zero quotient, for any duck
  count. With a duck count and an iteration count of at least one no error is raised.
\<close>

theorem test_errors:
  "(duck_count \<le> 0 \<and> 1 \<le> iterations \<longrightarrow> test iterations duck_count g = Inl IndexError)
   \<and> (iterations = 0 \<longrightarrow> test iterations duck_count g = Inl ZeroDivisionError)
   \<and> (iterations < 0 \<longrightarrow> test iterations duck_count g = Inr (([], 0, 0), g))
   \<and> (1 \<le> duck_count \<and> 1 \<le> iterations \<longrightarrow> (\<exists>r. test iterations duck_count g = Inr r))"
  using test_no_ducks [of duck_count iterations g] test_no_iterations [of iterations duck_count g]
    test_ok [of duck_count iterations g]
  by simp

theorem test_errors_witness:
  "(0::int) \<le> 0 \<and> (1::int) \<le> 1
   \<and> test 1 0 (stream_of []) = Inl IndexError
   \<and> test 0 1 (stream_of []) = Inl ZeroDivisionError
   \<and> (- 1::int) < 0
   \<and> test (- 1) 1 (stream_of []) = Inr (([], 0, 0), stream_of [])
   \<and> (\<exists>r. test 1 1 (stream_of []) = Inr r)"
  using test_errors [of 0 1 "stream_of []"] test_errors [of 1 0 "stream_of []"]
    test_errors [of 1 "- 1" "stream_of []"] test_errors [of 1 1 "stream_of []"]
  by simp

text \<open>
  C2, as the specification has it, fails: with one duck and an iteration count of
  \<open>-1\<close> the run raises nothing and returns the empty list, no hit and a zero
  quotient; with zero ducks and one iteration the error is the \<open>IndexError\<close> of the
  first trial, and with zero iterations the \<open>ZeroDivisionError\<close> of the final division.
\<close>

theorem test_invalid_argument_counterexample:
  "test (- 1) 1 (stream_of []) = Inr (([], 0, 0), stream_of [])
   \<and> test 1 0 (stream_of []) = Inl IndexError
   \<and> test 0 1 (stream_of []) = Inl ZeroDivisionError"
  by (simp add: test_def int_truediv_def rne_def generate_ducks_def)

text \<open>
  C3. For a duck count \<open>n\<close> of at least one and \<open>n\<close> values drawn by
  \<open>random.random()\<close>, \<open>generate_ducks\<close> returns a list of length \<open>n\<close> that is
  sorted ascending and has every element in \<open>[0,1)\<close>.
\<close>

theorem generate_ducks_sorted_unit:
  assumes "1 \<le> duck_count" and "\<forall>i<nat duck_count. random_value (g i)"
  shows "\<exists>ducks g'. generate_ducks duck_count g = Inr (ducks, g')
           \<and> length ducks = nat duck_count \<and> sorted ducks
           \<and> (\<forall>d\<in>set ducks. 0 \<le> d \<and> d < 1)"
proof -
  let ?ducks = "sort (map (\<lambda>i. rotate (g 0) (g i)) [0..<nat duck_count])"
  have g0: "random_value (g 0)" using assms by simp
  have "0 \<le> d \<and> d < 1" if "d \<in> set ?ducks" for d
  proof -
    from that obtain i where "i < nat duck_count" and "d = rotate (g 0) (g i)" by auto
    then show ?thesis using rotate_range [OF g0, of "g i"] assms(2) by simp
  qed
  then show ?thesis using generate_ducks_ok [OF assms(1), of g] by simp
qed

theorem generate_ducks_sorted_unit_witness:
  "(1::int) \<le> 3
   \<and> random_value (stream_of [1 / 4, 3 / 4, 1 / 8] 0)
   \<and> random_value (stream_of [1 / 4, 3 / 4, 1 / 8] 1)
   \<and> random_value (stream_of [1 / 4, 3 / 4, 1 / 8] 2)
   \<and> (\<exists>ducks g'. generate_ducks 3 (stream_of [1 / 4, 3 / 4, 1 / 8]) = Inr (ducks, g')
           \<and> length ducks = nat 3 \<and> sorted ducks
           \<and> (\<forall>d\<in>set ducks. 0 \<le> d \<and> d < 1))"
proof -
  let ?s = "stream_of [1 / 4, 3 / 4, 1 / 8]"
  have r: "random_value (?s 0)" "random_value (?s 1)" "random_value (?s 2)"
    by (simp_all add: stream_of_def random_value_def)
  have "random_value (?s i)" if "i < nat 3" for i
  proof -
    from that have "i = 0 \<or> i = 1 \<or> i = 2" by auto
    then show ?thesis using r by blast
  qed
  then have "\<forall>i<nat 3. random_value (?s i)" by blast
  from generate_ducks_sorted_unit [OF _ this] r
  show ?thesis by simp
qed

text \<open>
  C4, as the code has it. For every duck count \<open>n\<close> from \<open>1\<close> to \<open>1075\<close>,
  \<open>expected_result\<close> is exactly \<open>n / 2\<^sup>n\<^sup>-\<^sup>1\<close>; for two ducks it is \<open>1.0\<close> and
  for four ducks \<open>0.5\<close>.
\<close>

theorem expected_result_exact:
  "(1 \<le> n \<and> n \<le> 1075 \<longrightarrow> expected_result n = Some (Inr (of_int n / 2 ^ nat (n - 1))))
   \<and> expected_result 2 = Some (Inr 1)
   \<and> expected_result 4 = Some (Inr (1 / 2))"
  using expected_result_small [of n] expected_result_small [of 2] expected_result_small [of 4]
  by (simp add: eval_nat_numeral)

theorem expected_result_exact_witness:
  "(1::int) \<le> 10 \<and> (10::int) \<le> 1075 \<and> expected_result 10 = Some (Inr (10 / 512))"
  using expected_result_exact [of 10] by (simp add: eval_nat_numeral)

text \<open>
  C4, as the specification has it, fails from \<open>1076\<close> ducks on: the float
  \<open>1 / 2 ** 1075\<close> is \<open>0.0\<close>, and so is the product, while \<open>1076 / 2\<^sup>1\<^sup>0\<^sup>7\<^sup>5\<close> is
  not zero.
\<close>

theorem expected_result_underflow_counterexample:
  "expected_result 1076 = Some (Inr 0) \<and> (0::real) \<noteq> 1076 / 2 ^ 1075"
proof -
  have "expected_result 1076 = Some (Inr 0)"
    by (rule expected_result_underflow) simp_all
  moreover have "(1076::real) / 2 ^ 1075 \<noteq> 0"
    by (simp only: divide_eq_0_iff power_eq_0_iff) simp
  then have "(0::real) \<noteq> 1076 / 2 ^ 1075" by (rule not_sym)
  ultimately show ?thesis by (rule conjI)
qed

text \<open>
  C5, as the code has it. Moving every draw by the offset \<open>c\<close> modulo 1 leaves the hit
  or miss of a trial unchanged in each of these cases. With one duck, whatever the draw
  and the offset are. With draws and an offset that are values of \<open>random.random()\<close>:
  with two ducks; when draws and offset are multiples of \<open>2\<^sup>-\<^sup>5\<^sup>2\<close>; when the offset
  takes no draw to \<open>1\<close> or beyond; when the unmoved trial is a hit with a distance of
  at most \<open>0.5 - 2\<^sup>-\<^sup>5\<^sup>0\<close>; and when the unmoved trial is a miss by two sample
  elements that are at least \<open>0.5 + 2\<^sup>-\<^sup>5\<^sup>0\<close> apart, the smaller not below
  \<open>2\<^sup>-\<^sup>5\<^sup>0\<close> and the larger not above \<open>1 - 2\<^sup>-\<^sup>5\<^sup>0\<close>.
\<close>

theorem rotation_invariance:
  assumes n: "1 \<le> duck_count"
    and "duck_count = 1
       \<or> random_value c \<and> (\<forall>i<nat duck_count. random_value (g i)) \<and>
         (duck_count = 2
          \<or> coarse_value c \<and> (\<forall>i<nat duck_count. coarse_value (g i))
          \<or> (\<forall>i<nat duck_count. g i + c < 1)
          \<or> (\<exists>ducks g' distance. generate_ducks duck_count g = Inr (ducks, g')
                \<and> calculate_distance ducks = Inr distance \<and> distance \<le> 1 / 2 - 1 / 2 ^ 50)
          \<or> (\<exists>ducks g'. generate_ducks duck_count g = Inr (ducks, g')
                \<and> (\<exists>a\<in>set ducks. \<exists>b\<in>set ducks.
                      1 / 2 ^ 50 \<le> a \<and> b \<le> 1 - 1 / 2 ^ 50 \<and> 1 / 2 + 1 / 2 ^ 50 \<le> b - a)))"
  shows "outcome duck_count (\<lambda>i. shift c (g i)) = outcome duck_count g"
proof -
  define f where "f = (\<lambda>i. rotate (g 0) (g i))"
  define f' where "f' = (\<lambda>i. rotate (shift c (g 0)) (shift c (g i)))"
  have zero: "0 < nat duck_count" using n by simp
  from assms(2) consider (one) "duck_count = 1"
    | (two) "random_value c" "\<forall>i<nat duck_count. random_value (g i)" "duck_count = 2"
    | (coarse) "random_value c" "\<forall>i<nat duck_count. random_value (g i)"
        "coarse_value c" "\<forall>i<nat duck_count. coarse_value (g i)"
    | (nowrap) "random_value c" "\<forall>i<nat duck_count. random_value (g i)"
        "\<forall>i<nat duck_count. g i + c < 1"
    | (hit) ducks g' distance where "random_value c" "\<forall>i<nat duck_count. random_value (g i)"
        "generate_ducks duck_count g = Inr (ducks, g')" "calculate_distance ducks = Inr distance"
        "distance \<le> 1 / 2 - 1 / 2 ^ 50"
    | (miss) ducks g' a b where "random_value c" "\<forall>i<nat duck_count. random_value (g i)"
        "generate_ducks duck_count g = Inr (ducks, g')" "a \<in> set ducks" "b \<in> set ducks"
        "1 / 2 ^ 50 \<le> a" "b \<le> 1 - 1 / 2 ^ 50" "1 / 2 + 1 / 2 ^ 50 \<le> b - a"
    by blast
  then show ?thesis
  proof cases
    case one
    then show ?thesis by (simp add: outcome_one)
  next
    case two
    have "random_value (g 0)" and "random_value (g 1)" using two by simp_all
    moreover from this have "random_value (shift c (g 0))" and "random_value (shift c (g 1))"
      using two(1) by (simp_all add: shift_pos)
    ultimately show ?thesis using two(3) by (simp add: outcome_two)
  next
    case coarse
    have g0: "coarse_value (g 0)" using coarse(4) zero by simp
    have "f' i = f i" if "i < nat duck_count" for i
      unfolding f_def f'_def using rotate_shift [OF coarse(3) g0, of "g i"] coarse(4) that by simp
    then have "(\<forall>i<nat duck_count. \<forall>j<nat duck_count. f' i - f' j \<le> 1 / 2) \<longleftrightarrow>
               (\<forall>i<nat duck_count. \<forall>j<nat duck_count. f i - f j \<le> 1 / 2)" by simp
    then show ?thesis
      using outcome_iff [OF n coarse(2)]
        outcome_iff [OF n shift_random_values [OF coarse(1,2)]]
      by (simp only: f_def f'_def)
  next
    case nowrap
    have g0: "random_value (g 0)" and c0: "g 0 + c < 1" using nowrap zero by simp_all
    have "f' i = f i" if "i < nat duck_count" for i
      unfolding f_def f'_def using nowrap that by (intro rotate_shift_nowrap g0 c0) simp_all
    then have "(\<forall>i<nat duck_count. \<forall>j<nat duck_count. f' i - f' j \<le> 1 / 2) \<longleftrightarrow>
               (\<forall>i<nat duck_count. \<forall>j<nat duck_count. f i - f j \<le> 1 / 2)" by simp
    then show ?thesis
      using outcome_iff [OF n nowrap(2)]
        outcome_iff [OF n shift_random_values [OF nowrap(1,2)]]
      by (simp only: f_def f'_def)
  next
    case hit
    have "ducks = sample (nat duck_count) g 0" using hit(3) by (simp add: trial(1) [OF n])
    then have "distance = span (sample (nat duck_count) g 0)"
      using hit(4) by (simp add: trial(2) [OF n])
    then have "rotate (g 0) (g i) - rotate (g 0) (g j) \<le> 1 / 2 - 1 / 2 ^ 50"
      if "i < nat duck_count" "j < nat duck_count" for i j
      using pair_le_span [OF n hit(2) that] hit(5) by linarith
    then have "\<forall>i<nat duck_count. \<forall>j<nat duck_count.
                rotate (g 0) (g i) - rotate (g 0) (g j) \<le> 1 / 2 - 1 / 2 ^ 50" by blast
    from robust_hit [OF n hit(1,2) this] show ?thesis by simp
  next
    case miss
    have "ducks = sample (nat duck_count) g 0" using miss(3) by (simp add: trial(1) [OF n])
    then have set: "set ducks = (\<lambda>i. rotate (g 0) (g i)) ` {0..<nat duck_count}"
      by (simp only: set_sample)
    from miss(4) obtain j where j: "j < nat duck_count" and a: "a = rotate (g 0) (g j)"
      by (auto simp: set)
    from miss(5) obtain i where i: "i < nat duck_count" and b: "b = rotate (g 0) (g i)"
      by (auto simp: set)
    from robust_miss [OF n miss(1,2) i j miss(6) [unfolded a] miss(7) [unfolded b]
        miss(8) [unfolded a b]]
    show ?thesis by simp
  qed
qed

theorem rotation_invariance_witness:
  "outcome 1 (\<lambda>i. shift (1 / 3) (stream_of [3 / 8] i)) = Inr True
   \<and> random_value (1 / 2 + 1 / 2 ^ 53)
   \<and> outcome 2 (\<lambda>i. shift (1 / 2 + 1 / 2 ^ 53) (stream_of [1 / 2, 1 - 1 / 2 ^ 53] i)) = Inr True
   \<and> coarse_value (3 / 4)
   \<and> outcome 3 (\<lambda>i. shift (3 / 4) (stream_of [1 / 2, 3 / 4, 1 / 8] i)) = Inr False
   \<and> outcome 3 (\<lambda>i. shift (1 / 4) (stream_of [1 / 2, 1 / 2 + 1 / 2 ^ 53, 3 * (1 / 2 ^ 53)] i)) = Inr True
   \<and> calculate_distance [1 / 2, 5 / 8, 3 / 4] = Inr (1 / 4)
   \<and> outcome 3 (\<lambda>i. shift (1 / 2 + 1 / 2 ^ 53) (stream_of [1 / 2, 5 / 8, 3 / 4] i)) = Inr True
   \<and> outcome 3 (\<lambda>i. shift (1 / 2 + 1 / 2 ^ 53) (stream_of [1 / 2, 3 / 4, 1 / 8] i)) = Inr False"
proof -
  define u :: real where "u = 1 / 2 ^ 53"
  have u: "0 < u" "u < 1 / 16" by (simp_all add: u_def)
  have margin: "(1::real) / 2 ^ 50 = 8 * u" by (simp add: u_def)
  have rv: "random_value (1 / 2)" "random_value (3 / 4)" "random_value (1 / 8)"
    "random_value (5 / 8)" "random_value (1 / 4)" "random_value (1 / 2 + u)"
    "random_value (3 * u)" "random_value (1 - u)" "random_value (1 / 2 - 2 * u)"
    by (simp_all add: u_def random_value_def)
  have cv: "coarse_value (1 / 2)" "coarse_value (3 / 4)" "coarse_value (1 / 8)"
    by (simp_all add: coarse_value_def)
  note exact = rv [THEN rne_random_value] and half = rv [THEN rotate_half]
  have w1: "outcome 1 (\<lambda>i. shift (1 / 3) (stream_of [3 / 8] i)) = outcome 1 (stream_of [3 / 8])"
    by (rule rotation_invariance) simp_all
  let ?s2 = "stream_of [1 / 2, 1 - u]"
  have s2: "?s2 0 = 1 / 2" "?s2 1 = 1 - u" by (simp_all add: stream_of_def)
  have "\<forall>i<nat 2. random_value (?s2 i)" by (rule all_below_two) (simp_all only: s2 rv)
  then have w2: "outcome 2 (\<lambda>i. shift (1 / 2 + u) (?s2 i)) = outcome 2 ?s2"
    using rv(6) by (intro rotation_invariance) simp_all
  have o2: "outcome 2 ?s2 = Inr True" by (rule outcome_two) (simp_all only: s2 rv)
  let ?s3 = "stream_of [1 / 2, 3 / 4, 1 / 8]"
  have s3: "?s3 0 = 1 / 2" "?s3 1 = 3 / 4" "?s3 2 = 1 / 8" by (simp_all add: stream_of_def)
  have r3: "\<forall>i<nat 3. random_value (?s3 i)" by (rule all_below_three) (simp_all only: s3 rv)
  have c3: "\<forall>i<nat 3. coarse_value (?s3 i)" by (rule all_below_three) (simp_all only: s3 cv)
  have w3: "outcome 3 (\<lambda>i. shift (3 / 4) (?s3 i)) = outcome 3 ?s3"
    using rv(2) r3 cv(2) c3 by (intro rotation_invariance) simp_all
  have sample3: "sample 3 ?s3 0 = [1 / 8, 1 / 2, 3 / 4]"
    by (simp add: sample_def stream_of_def upt_numerals half)
  have "span [1 / 8, 1 / 2, 3 / 4] = 5 / 8" using exact(4) by (simp add: span_def float_sub_def)
  then have o3: "outcome 3 ?s3 = Inr False" using outcome_ok [of 3 ?s3] by (simp add: sample3)
  let ?s4 = "stream_of [1 / 2, 1 / 2 + u, 3 * u]"
  have s4: "?s4 0 = 1 / 2" "?s4 1 = 1 / 2 + u" "?s4 2 = 3 * u" by (simp_all add: stream_of_def)
  have r4: "\<forall>i<nat 3. random_value (?s4 i)" by (rule all_below_three) (simp_all only: s4 rv)
  have n4: "\<forall>i<nat 3. ?s4 i + 1 / 4 < 1"
    using u by (intro all_below_three) (simp_all add: stream_of_def)
  have w4: "outcome 3 (\<lambda>i. shift (1 / 4) (?s4 i)) = outcome 3 ?s4"
    using rv(5) r4 n4 by (intro rotation_invariance) simp_all
  have sample4: "sample 3 ?s4 0 = [3 * u, 1 / 2, 1 / 2 + u]"
    using u by (simp add: sample_def stream_of_def upt_numerals half)
  have "1 / 2 + u - 3 * u = 1 / 2 - 2 * u" by simp
  then have "span [3 * u, 1 / 2, 1 / 2 + u] = 1 / 2 - 2 * u"
    by (simp add: span_def float_sub_def exact)
  then have o4: "outcome 3 ?s4 = Inr True" using outcome_ok [of 3 ?s4] u by (simp add: sample4)
  let ?s5 = "stream_of [1 / 2, 5 / 8, 3 / 4]"
  have s5: "?s5 0 = 1 / 2" "?s5 1 = 5 / 8" "?s5 2 = 3 / 4" by (simp_all add: stream_of_def)
  have r5: "\<forall>i<nat 3. random_value (?s5 i)" by (rule all_below_three) (simp_all only: s5 rv)
  have sample5: "sample 3 ?s5 0 = [1 / 2, 5 / 8, 3 / 4]"
    by (simp add: sample_def stream_of_def upt_numerals half)
  have gen5: "generate_ducks 3 ?s5 = Inr ([1 / 2, 5 / 8, 3 / 4], \<lambda>i. ?s5 (i + nat 3))"
    using trial(1) [of 3 ?s5] by (simp add: sample5)
  have dist5: "calculate_distance [1 / 2, 5 / 8, 3 / 4] = Inr (1 / 4)"
    using exact(5) by (simp add: calculate_distance_def float_sub_def)
  have "(1::real) / 4 \<le> 1 / 2 - 1 / 2 ^ 50" by simp
  with gen5 dist5 have "\<exists>ducks g' distance. generate_ducks 3 ?s5 = Inr (ducks, g')
      \<and> calculate_distance ducks = Inr distance \<and> distance \<le> 1 / 2 - 1 / 2 ^ 50" by blast
  then have w5: "outcome 3 (\<lambda>i. shift (1 / 2 + u) (?s5 i)) = outcome 3 ?s5"
    using rv(6) r5 by (intro rotation_invariance) simp_all
  have "span [1 / 2, 5 / 8, 3 / 4] = 1 / 4" using exact(5) by (simp add: span_def float_sub_def)
  then have o5: "outcome 3 ?s5 = Inr True" using outcome_ok [of 3 ?s5] by (simp add: sample5)
  have gen6: "generate_ducks 3 ?s3 = Inr ([1 / 8, 1 / 2, 3 / 4], \<lambda>i. ?s3 (i + nat 3))"
    using trial(1) [of 3 ?s3] by (simp add: sample3)
  have "(1::real) / 8 \<in> set [1 / 8, 1 / 2, 3 / 4]" and "(3::real) / 4 \<in> set [1 / 8, 1 / 2, 3 / 4]"
    and "(1::real) / 2 ^ 50 \<le> 1 / 8" and "(3::real) / 4 \<le> 1 - 1 / 2 ^ 50"
    and "(1::real) / 2 + 1 / 2 ^ 50 \<le> 3 / 4 - 1 / 8"
    by simp_all
  with gen6 have "\<exists>ducks g'. generate_ducks 3 ?s3 = Inr (ducks, g')
      \<and> (\<exists>a\<in>set ducks. \<exists>b\<in>set ducks.
            1 / 2 ^ 50 \<le> a \<and> b \<le> 1 - 1 / 2 ^ 50 \<and> 1 / 2 + 1 / 2 ^ 50 \<le> b - a)" by blast
  then have w6: "outcome 3 (\<lambda>i. shift (1 / 2 + u) (?s3 i)) = outcome 3 ?s3"
    using rv(6) r3 by (intro rotation_invariance) simp_all
  show ?thesis
    unfolding u_def [symmetric]
    using w1 w2 w3 w4 w5 w6 o2 o3 o4 o5 rv(6) cv(2) dist5
    by (simp add: outcome_one)
qed

text \<open>
  C5, as the specification has it, fails. The draws \<open>0, 0.5 + 2\<^sup>-\<^sup>5\<^sup>3, 2\<^sup>-\<^sup>5\<^sup>3\<close> are a
  miss: the rotated \<open>1 + 2\<^sup>-\<^sup>5\<^sup>3\<close> is rounded to \<open>1.0\<close>, and the span is
  \<open>0.5 + 2\<^sup>-\<^sup>5\<^sup>3\<close>. Moved by \<open>1 - 2\<^sup>-\<^sup>5\<^sup>3\<close> modulo 1 they are
  \<open>1 - 2\<^sup>-\<^sup>5\<^sup>3, 0.5, 0\<close>, with no rounding, and these are a hit, with span \<open>0.5\<close>.
\<close>

theorem rotation_invariance_counterexample:
  "map (shift (1 - 1 / 2 ^ 53)) [0, 1 / 2 + 1 / 2 ^ 53, 1 / 2 ^ 53] = [1 - 1 / 2 ^ 53, 1 / 2, 0]
   \<and> outcome 3 (stream_of [0, 1 / 2 + 1 / 2 ^ 53, 1 / 2 ^ 53]) = Inr False
   \<and> outcome 3 (stream_of (map (shift (1 - 1 / 2 ^ 53)) [0, 1 / 2 + 1 / 2 ^ 53, 1 / 2 ^ 53])) =
       Inr True"
proof -
  define u :: real where "u = 1 / 2 ^ 53"
  have u: "0 < u" "u < 1 / 2" by (simp_all add: u_def)
  have rv: "random_value (1 - u)" "random_value (1 / 2 + u)" "random_value (1 / 2)"
    "random_value u"
    by (simp_all add: u_def random_value_def)
  note exact = rv [THEN rne_random_value]
  have "rne (of_int (1 - 2 ^ 52) / 2 ^ 53) = of_int (1 - 2 ^ 52) / 2 ^ 53"
    by (rule rne_grid53) simp
  moreover have "real_of_int (1 - 2 ^ 52) / 2 ^ 53 = u - 1 / 2" by (simp add: u_def)
  ultimately have neg: "rne (u - 1 / 2) = u - 1 / 2" by (simp only:)
  have one: "rne 1 = 1" using rne_of_int [of 1] by simp
  have three_halves: "rne (3 / 2) = 3 / 2"
    using rne_one_two [of "3 / 2"] by (simp add: round_even_def)
  have tie: "rne (1 + u) = 1"
    unfolding u_def using rne_one_two [of "1 + 1 / 2 ^ 53"] by (simp add: round_even_def)
  have wrap: "float_mod1 1 = 0" "float_mod1 (3 / 2) = 1 / 2" "float_mod1 (1 / 2) = 1 / 2"
    "float_mod1 (1 - u) = 1 - u" "float_mod1 (1 / 2 + u) = 1 / 2 + u" "float_mod1 u = u"
    "float_mod1 (u - 1 / 2) = float_add (u - 1 / 2) 1"
    using float_mod1_above [of 1] float_mod1_above [of "3 / 2"] float_mod1_unit [of "1 / 2"]
      float_mod1_unit [of "1 - u"] float_mod1_unit [of "1 / 2 + u"] float_mod1_unit [of u]
      float_mod1_below [of "u - 1 / 2"] u
    by simp_all
  have sums: "0 + (1 - u) = 1 - u" "1 / 2 + u + (1 - u) = 3 / 2" "u + (1 - u) = 1"
    "(1::real) / 2 - 0 = 1 / 2" "0 + (1::real) / 2 = 1 / 2" "1 / 2 + u + 1 / 2 = 1 + u"
    "u + 1 / 2 = 1 / 2 + u" "1 / 2 - (1 - u) = u - 1 / 2" "1 - u + (u - 1 / 2) = 1 / 2"
    "1 / 2 + (u - 1 / 2) = u" "0 + (u - 1 / 2) = u - 1 / 2" "u - 1 / 2 + 1 = 1 / 2 + u"
    "1 / 2 + u - 0 = 1 / 2 + u" "1 / 2 + u - u = 1 / 2"
    by simp_all
  have sh: "shift (1 - u) 0 = 1 - u" "shift (1 - u) (1 / 2 + u) = 1 / 2" "shift (1 - u) u = 0"
    by (simp_all only: shift_def float_add_def sums exact three_halves one wrap)
  have r1: "rotate 0 0 = 1 / 2" "rotate 0 (1 / 2 + u) = 0" "rotate 0 u = 1 / 2 + u"
    by (simp_all only: rotate_def float_sub_def float_add_def sums exact tie wrap)
  have r2: "rotate (1 - u) (1 - u) = 1 / 2" "rotate (1 - u) (1 / 2) = u"
    "rotate (1 - u) 0 = 1 / 2 + u"
    by (simp_all only: rotate_def float_sub_def float_add_def sums exact neg wrap)
  have s1: "sample 3 (stream_of [0, 1 / 2 + u, u]) 0 = [0, 1 / 2, 1 / 2 + u]"
    using u by (simp add: sample_def stream_of_def upt_numerals r1)
  have s2: "sample 3 (stream_of [1 - u, 1 / 2, 0]) 0 = [u, 1 / 2, 1 / 2 + u]"
    using u by (simp add: sample_def stream_of_def upt_numerals r2)
  have d: "span [0, 1 / 2, 1 / 2 + u] = 1 / 2 + u" "span [u, 1 / 2, 1 / 2 + u] = 1 / 2"
    by (simp_all add: span_def float_sub_def exact)
  have "outcome 3 (stream_of [0, 1 / 2 + u, u]) = Inr False"
    using outcome_ok [of 3 "stream_of [0, 1 / 2 + u, u]"] u by (simp add: s1 d)
  moreover have "outcome 3 (stream_of [1 - u, 1 / 2, 0]) = Inr True"
    using outcome_ok [of 3 "stream_of [1 - u, 1 / 2, 0]"] by (simp add: s2 d)
  ultimately show ?thesis
    unfolding u_def [symmetric] by (simp only: list.map sh simp_thms)
qed

text \<open>
  C7. When the first draw \<open>v\<close> is a value of \<open>random.random()\<close>, the float sum
  \<open>v + (0.5 - v)\<close> is exactly \<open>0.5\<close>, and \<open>0.5\<close> is an element of the sample that
  \<open>generate_ducks\<close> returns.
\<close>

theorem anchor_at_half:
  assumes "1 \<le> duck_count" and "random_value (g 0)"
  shows "float_add (g 0) (float_sub (1 / 2) (g 0)) = 1 / 2
         \<and> (\<exists>ducks g'. generate_ducks duck_count g = Inr (ducks, g') \<and> 1 / 2 \<in> set ducks)"
proof -
  have "0 < nat duck_count" using assms(1) by simp
  then have "rotate (g 0) (g 0) \<in> (\<lambda>i. rotate (g 0) (g i)) ` {0..<nat duck_count}"
    by (intro imageI) simp
  then have "1 / 2 \<in> set (sort (map (\<lambda>i. rotate (g 0) (g i)) [0..<nat duck_count]))"
    by (simp add: rotate_anchor(2) [OF assms(2)])
  then show ?thesis
    using generate_ducks_ok [OF assms(1), of g] rotate_anchor(1) [OF assms(2)] by simp
qed

theorem anchor_at_half_witness:
  "(1::int) \<le> 2 \<and> random_value (stream_of [3 / 4, 1 / 8] 0)
   \<and> float_add (stream_of [3 / 4, 1 / 8] 0) (float_sub (1 / 2) (stream_of [3 / 4, 1 / 8] 0)) = 1 / 2
   \<and> (\<exists>ducks g'. generate_ducks 2 (stream_of [3 / 4, 1 / 8]) = Inr (ducks, g')
         \<and> 1 / 2 \<in> set ducks)"
proof -
  have r: "random_value (stream_of [3 / 4, 1 / 8] 0)"
    by (simp add: stream_of_def random_value_def)
  show ?thesis using anchor_at_half [of 2 "stream_of [3 / 4, 1 / 8]", OF _ r] r by simp
qed

text \<open>
  C8. With one duck every trial is a hit: whatever the value drawn, the distance of the
  sample that \<open>generate_ducks\<close> returns is \<open>0\<close>, the hit test is true for it,
  and the loop of \<open>test\<close> counts every iteration.
\<close>

theorem single_duck_hit:
  "(\<exists>ducks g'. generate_ducks 1 g = Inr (ducks, g')
       \<and> calculate_distance ducks = Inr 0 \<and> test_distance 0)
   \<and> test_loop i 1 hits g = Inr (hits + int i, \<lambda>j. g (j + i))"
proof
  have g: "generate_ducks 1 g = Inr ([rotate (g 0) (g 0)], \<lambda>i. g (i + 1))" for g
    using generate_ducks_ok [of 1 g] by simp
  have d: "calculate_distance [x] = Inr 0" for x
    by (simp add: calculate_distance_def float_sub_self)
  show "\<exists>ducks g'. generate_ducks 1 g = Inr (ducks, g')
       \<and> calculate_distance ducks = Inr 0 \<and> test_distance 0"
    using g [of g] d by (simp add: test_distance_def)
  show "test_loop i 1 hits g = Inr (hits + int i, \<lambda>j. g (j + i))"
  proof (induction i arbitrary: hits g)
    case 0
    then show ?case by simp
  next
    case (Suc i)
    show ?case by (simp add: g d test_distance_def Suc)
  qed
qed

text \<open>
  C9. The hit test is inclusive at the boundary: \<open>test_distance\<close> returns true exactly
  for the distances that are at most \<open>0.5\<close>, and a distance of exactly \<open>0.5\<close>
  is a hit.
\<close>

theorem test_distance_inclusive:
  "(test_distance distance \<longleftrightarrow> distance \<le> 1 / 2) \<and> test_distance (1 / 2)"
  by (simp add: test_distance_def)

text \<open>
  C10. \<open>generate_ducks\<close> with a duck count of zero or less fails with the
  \<open>IndexError\<close> of \<open>random_ducks[0]\<close> on the empty list, and so does
  \<open>calculate_distance\<close> on the empty list. With a duck count of at least one,
  \<open>generate_ducks\<close> returns a list of that length, and \<open>calculate_distance\<close>
  returns the difference of its last and first element.
\<close>

theorem generate_ducks_partial:
  "(duck_count \<le> 0 \<longrightarrow> generate_ducks duck_count g = Inl IndexError)
   \<and> calculate_distance [] = Inl IndexError
   \<and> (1 \<le> duck_count \<longrightarrow>
        (\<exists>ducks g'. generate_ducks duck_count g = Inr (ducks, g')
           \<and> length ducks = nat duck_count
           \<and> calculate_distance ducks = Inr (float_sub (last ducks) (hd ducks))))"
proof (intro conjI impI)
  assume "duck_count \<le> 0"
  then show "generate_ducks duck_count g = Inl IndexError" by (rule generate_ducks_error)
next
  show "calculate_distance [] = Inl IndexError" by (simp add: calculate_distance_def)
next
  assume n: "1 \<le> duck_count"
  let ?ducks = "sort (map (\<lambda>i. rotate (g 0) (g i)) [0..<nat duck_count])"
  have len: "length ?ducks = nat duck_count" by simp
  then have "?ducks \<noteq> []" using n by (cases ?ducks) simp_all
  then have "calculate_distance ?ducks = Inr (float_sub (last ?ducks) (hd ?ducks))"
    by (rule calculate_distance_ok)
  with len generate_ducks_ok [OF n, of g]
  show "\<exists>ducks g'. generate_ducks duck_count g = Inr (ducks, g')
           \<and> length ducks = nat duck_count
           \<and> calculate_distance ducks = Inr (float_sub (last ducks) (hd ducks))"
    by blast
qed

theorem generate_ducks_partial_witness:
  "(0::int) \<le> 0 \<and> generate_ducks 0 (stream_of []) = Inl IndexError
   \<and> (1::int) \<le> 1
   \<and> (\<exists>ducks g'. generate_ducks 1 (stream_of [1 / 4]) = Inr (ducks, g')
           \<and> length ducks = nat 1
           \<and> calculate_distance ducks = Inr (float_sub (last ducks) (hd ducks)))"
  using generate_ducks_partial [of 0 "stream_of []"]
    generate_ducks_partial [of 1 "stream_of [1 / 4]"]
  by simp

end
